theory Spec2Isabelle
  imports Complex_Main
begin

section \<open>Data model of gpstrace.py\<close>

text \<open>
  Timestamps (\<^verbatim>\<open>datetime\<close>) are whole seconds counted from Monday 0001-01-01 00:00:00,
  durations (\<^verbatim>\<open>timedelta\<close>) are whole seconds; both are unbounded integers, so the
  \<^verbatim>\<open>OverflowError\<close> of a \<^verbatim>\<open>datetime\<close> outside the years 1 to 9999 is not part of the model.
  A Python \<^verbatim>\<open>float\<close> is a real number (only its comparisons are used; \<^verbatim>\<open>nan\<close> and the
  infinities are left out). The dwell range of a Location is a pair of integers.

  Embedded are \<^verbatim>\<open>Route.__init__\<close>, the parsers \<^verbatim>\<open>parse_visit_time\<close> and \<^verbatim>\<open>parse_weekdays\<close>,
  \<^verbatim>\<open>choose_route\<close>, \<^verbatim>\<open>generate_pings\<close>, \<^verbatim>\<open>Location.random_visit\<close> and \<^verbatim>\<open>trace\<close>. Exceptions are
  values of \<open>error\<close> on the left of a sum; the list \<^verbatim>\<open>self.routes\<close> of the tracer is an
  explicit argument. Reading the configuration file and writing the CSV file are not
  embedded.
\<close>

definition VISIT_PING_TIME :: int where
  "VISIT_PING_TIME = 10 * 60"

text \<open>
  \<^verbatim>\<open>class Location\<close>. The class defines no \<^verbatim>\<open>__eq__\<close>, so \<^verbatim>\<open>==\<close> on two Locations is object
  identity: the field \<open>ident\<close> stands for the object's identity, and equality of records
  is equality of objects.
\<close>

record location =
  ident :: nat
  name :: string
  latitude :: real
  longitude :: real
  visit_time :: "int \<times> int"

text \<open>\<^verbatim>\<open>class Route\<close>; its \<^verbatim>\<open>name\<close> field is \<open>rname\<close> here.\<close>

record route =
  rname :: string
  start_at :: location
  waypoints :: "location list"
  end_at :: location
  probability :: real
  weekdays :: "int list"

datatype error =
    TypeError string
  | ValueError string
  | NoAvailableRouteError string

text \<open>The values that reach an \<^verbatim>\<open>isinstance\<close> check or a truth test of the source.\<close>

datatype pyval =
    PNone
  | PFloat real
  | PInt int
  | PStr string
  | PLoc location
  | PTime int
  | PList "pyval list"
  | PTuple "pyval list"

fun truthy :: "pyval \<Rightarrow> bool" where
  "truthy PNone = False"
| "truthy (PFloat x) = (x \<noteq> 0)"
| "truthy (PInt i) = (i \<noteq> 0)"
| "truthy (PStr s) = (s \<noteq> [])"
| "truthy (PLoc l) = True"
| "truthy (PTime t) = True"
| "truthy (PList xs) = (xs \<noteq> [])"
| "truthy (PTuple xs) = (xs \<noteq> [])"

section \<open>Ping expansion\<close>

text \<open>
  \<^verbatim>\<open>generate_pings\<close>, lines 223 to 230: the \<^verbatim>\<open>while Tc < end_time\<close> loop with its
  accumulator \<^verbatim>\<open>pings\<close>.
\<close>

function generate_pings_loop :: "int \<Rightarrow> int \<Rightarrow> int list \<Rightarrow> int list" where
  "generate_pings_loop tc end_time pings =
     (if tc < end_time
      then generate_pings_loop (tc + VISIT_PING_TIME) end_time (pings @ [tc])
      else pings)"
  by pat_completeness auto
termination
  by (relation "measure (\<lambda>(tc, end_time, pings). nat (end_time - tc))")
     (auto simp: VISIT_PING_TIME_def)

declare generate_pings_loop.simps [simp del]

definition generate_pings :: "location \<Rightarrow> int \<Rightarrow> int \<Rightarrow> int list" where
  "generate_pings loc start_time vt =
     generate_pings_loop start_time (start_time + vt) []"

section \<open>Parsing of configuration values\<close>

text \<open>
  String helpers of the Python runtime used by the parsers: \<^verbatim>\<open>s.replace(' ', '')\<close>,
  \<^verbatim>\<open>s.split(',')\<close> (which always returns at least one part), \<^verbatim>\<open>s.endswith(c)\<close> and
  \<^verbatim>\<open>s[:-1]\<close> (which is \<^const>\<open>butlast\<close>).
\<close>

definition quote :: string where
  "quote = [CHR 0x27]"

definition remove_spaces :: "string \<Rightarrow> string" where
  "remove_spaces s = filter (\<lambda>c. c \<noteq> CHR '' '') s"

fun split_str :: "char \<Rightarrow> string \<Rightarrow> string list" where
  "split_str sep [] = [[]]"
| "split_str sep (c # cs) =
     (if c = sep then [] # split_str sep cs
      else (case split_str sep cs of
              [] \<Rightarrow> [[c]]
            | p # ps \<Rightarrow> (c # p) # ps))"

definition endswith :: "string \<Rightarrow> char \<Rightarrow> bool" where
  "endswith s c = (s \<noteq> [] \<and> last s = c)"

text \<open>
  The built-in \<^verbatim>\<open>int(s)\<close> on a string, base 10: surrounding whitespace is stripped, one
  optional sign, then one or more decimal digits; anything else is a \<^verbatim>\<open>ValueError\<close>
  (\<open>None\<close> here).
\<close>

definition is_space :: "char \<Rightarrow> bool" where
  "is_space c = (c \<in> set [CHR '' '', CHR 0x09, CHR 0x0A, CHR 0x0B, CHR 0x0C, CHR 0x0D])"

definition is_digit :: "char \<Rightarrow> bool" where
  "is_digit c = (c \<in> set ''0123456789'')"

definition strip :: "string \<Rightarrow> string" where
  "strip s = rev (dropWhile is_space (rev (dropWhile is_space s)))"

definition digit_value :: "char \<Rightarrow> nat" where
  "digit_value c = of_char c - 48"

definition digits_value :: "string \<Rightarrow> nat" where
  "digits_value ds = foldl (\<lambda>a c. 10 * a + digit_value c) 0 ds"

definition unsigned_int :: "string \<Rightarrow> int option" where
  "unsigned_int ds =
     (if ds \<noteq> [] \<and> list_all is_digit ds then Some (int (digits_value ds)) else None)"

definition py_int :: "string \<Rightarrow> int option" where
  "py_int s =
     (case strip s of
        [] \<Rightarrow> None
      | c # r \<Rightarrow>
          if c = CHR ''-'' then map_option uminus (unsigned_int r)
          else if c = CHR ''+'' then unsigned_int r
          else unsigned_int (c # r))"

text \<open>\<^verbatim>\<open>'%d' % i\<close> for an index \<open>i\<close>.\<close>

fun string_of_nat :: "nat \<Rightarrow> string" where
  "string_of_nat n =
     (if n < 10 then [char_of (48 + n)]
      else string_of_nat (n div 10) @ [char_of (48 + n mod 10)])"

declare string_of_nat.simps [simp del]

text \<open>
  \<^verbatim>\<open>parse_visit_time\<close>, lines 146 to 166. \<open>parse_visit_time_part\<close> is the body of the
  \<^verbatim>\<open>for i, part in enumerate(parts)\<close> loop, \<open>parse_visit_time_parts\<close> the loop; a
  \<^verbatim>\<open>ValueError\<close> raised inside the \<^verbatim>\<open>try\<close> is \<open>None\<close>, re-raised by the \<^verbatim>\<open>except\<close> clause with
  the message that names the location.
\<close>

definition parse_visit_time_part :: "string \<Rightarrow> int option" where
  "parse_visit_time_part part =
     (if endswith part (CHR ''h'') then map_option (\<lambda>n. n * 3600) (py_int (butlast part))
      else if endswith part (CHR ''m'') then map_option (\<lambda>n. n * 60) (py_int (butlast part))
      else if endswith part (CHR ''s'') then py_int (butlast part)
      else py_int part)"

fun parse_visit_time_parts :: "string list \<Rightarrow> int list option" where
  "parse_visit_time_parts [] = Some []"
| "parse_visit_time_parts (part # parts) =
     (case parse_visit_time_part part of
        None \<Rightarrow> None
      | Some v \<Rightarrow>
          (case parse_visit_time_parts parts of
             None \<Rightarrow> None
           | Some vs \<Rightarrow> Some (v # vs)))"

definition visit_time_error :: "string \<Rightarrow> string \<Rightarrow> error" where
  "visit_time_error vt loc =
     ValueError (''Invalid visit_time '' @ quote @ vt @ quote @ '' for location '' @ quote @ loc @ quote)"

definition parse_visit_time :: "string \<Rightarrow> string \<Rightarrow> error + (int \<times> int)" where
  "parse_visit_time vt loc =
     (let parts = split_str (CHR '','') (remove_spaces vt) in
      if length parts \<noteq> 2 then Inl (visit_time_error vt loc)
      else (case parse_visit_time_parts parts of
              None \<Rightarrow> Inl (visit_time_error vt loc)
            | Some vs \<Rightarrow> Inr (vs ! 0, vs ! 1)))"

text \<open>
  \<^verbatim>\<open>parse_weekdays\<close>, lines 183 to 199: the \<^verbatim>\<open>for part in parts\<close> loop with its
  accumulator \<^verbatim>\<open>result\<close>; both the failure of \<^verbatim>\<open>int(part)\<close> and the range check raise
  the same \<^verbatim>\<open>ValueError\<close>.
\<close>

definition weekdays_error :: "string \<Rightarrow> error" where
  "weekdays_error rn = ValueError (''Invalid weekdays for route '' @ quote @ rn @ quote)"

fun parse_weekdays_loop :: "string list \<Rightarrow> string \<Rightarrow> int list \<Rightarrow> error + int list" where
  "parse_weekdays_loop [] rn result = Inr result"
| "parse_weekdays_loop (part # parts) rn result =
     (case py_int part of
        None \<Rightarrow> Inl (weekdays_error rn)
      | Some day \<Rightarrow>
          if day < 0 \<or> day > 6 then Inl (weekdays_error rn)
          else parse_weekdays_loop parts rn (result @ [day]))"

definition parse_weekdays :: "string \<Rightarrow> string \<Rightarrow> error + int list" where
  "parse_weekdays wds rn =
     parse_weekdays_loop (split_str (CHR '','') (remove_spaces wds)) rn []"

section \<open>Route construction\<close>

text \<open>
  \<^verbatim>\<open>Route.__init__\<close>, lines 42 to 60. The arguments that the constructor checks with
  \<^verbatim>\<open>isinstance\<close> are dynamic values; \<^verbatim>\<open>weekdays\<close> is \<^verbatim>\<open>None\<close> or a sequence of integers.
  \<open>check_waypoints\<close> is the \<^verbatim>\<open>for i, wp in enumerate(self.waypoints)\<close> loop.
\<close>

fun check_waypoints :: "nat \<Rightarrow> string \<Rightarrow> pyval list \<Rightarrow> error + location list" where
  "check_waypoints i rn [] = Inr []"
| "check_waypoints i rn (wp # wps) =
     (case wp of
        PLoc l \<Rightarrow>
          (case check_waypoints (Suc i) rn wps of
             Inl e \<Rightarrow> Inl e
           | Inr ls \<Rightarrow> Inr (l # ls))
      | _ \<Rightarrow> Inl (TypeError (''Waypoint at index '' @ string_of_nat i @ '' of route '' @ quote
                  @ rn @ quote @ '' must be a Location instance'')))"

fun is_list :: "pyval \<Rightarrow> bool" where
  "is_list (PList xs) = True"
| "is_list _ = False"

fun list_items :: "pyval \<Rightarrow> pyval list" where
  "list_items (PList xs) = xs"
| "list_items _ = []"

definition Route_init ::
  "string \<Rightarrow> pyval \<Rightarrow> pyval \<Rightarrow> pyval \<Rightarrow> pyval \<Rightarrow> int list option \<Rightarrow> error + route" where
  "Route_init rn start_v end_v wps_v prob_v wds =
     (case start_v of
        PLoc st \<Rightarrow>
          if truthy wps_v \<and> \<not> is_list wps_v
          then Inl (TypeError ''waypoints must be a list of Location instances'')
          else
            (case end_v of
               PLoc en \<Rightarrow>
                 (case prob_v of
                    PFloat p \<Rightarrow>
                      if p < 0.0 \<and> p > 1.0
                      then Inl (TypeError ''probability must be a floating point number between 0.0 and 1.0'')
                      else
                        (case check_waypoints 0 rn (if truthy wps_v then list_items wps_v else []) of
                           Inl e \<Rightarrow> Inl e
                         | Inr wps \<Rightarrow>
                             Inr \<lparr>rname = rn, start_at = st, waypoints = wps, end_at = en,
                                  probability = p,
                                  weekdays = (case wds of
                                                None \<Rightarrow> [0..7]
                                              | Some ds \<Rightarrow> if ds \<noteq> [] then ds else [0..7])\<rparr>)
                  | _ \<Rightarrow> Inl (TypeError ''probability must be a floating point number between 0.0 and 1.0''))
             | _ \<Rightarrow> Inl (TypeError ''end_at must be a Location instance''))
      | _ \<Rightarrow> Inl (TypeError ''start_at must be a Location instance''))"

text \<open>
  The weekdays step of the loader, lines 122 and 136 to 141: \<open>wds_key\<close> is the value of
  the section's \<^verbatim>\<open>weekdays\<close> key, \<open>None\<close> when the key is absent (\<^verbatim>\<open>NoOptionError\<close>, after
  which \<^verbatim>\<open>weekdays\<close> stays \<^verbatim>\<open>None\<close>). The other arguments are the values the loader has
  already resolved for the route.
\<close>

definition load_route ::
  "string \<Rightarrow> pyval \<Rightarrow> pyval \<Rightarrow> pyval \<Rightarrow> pyval \<Rightarrow> string option \<Rightarrow> error + route" where
  "load_route rn start_v end_v wps_v prob_v wds_key =
     (case wds_key of
        None \<Rightarrow> Route_init rn start_v end_v wps_v prob_v None
      | Some wds \<Rightarrow>
          (case parse_weekdays wds rn of
             Inl e \<Rightarrow> Inl e
           | Inr ds \<Rightarrow> Route_init rn start_v end_v wps_v prob_v (Some ds)))"

section \<open>Route selection\<close>

text \<open>
  \<^verbatim>\<open>choose_route\<close>, lines 204 to 221: the scan over \<^verbatim>\<open>self.routes\<close> with its two variables
  \<^verbatim>\<open>max_probability\<close> and \<^verbatim>\<open>chosen_route\<close> (\<open>None\<close> until a route is taken).
\<close>

fun choose_route_loop ::
  "route list \<Rightarrow> int \<Rightarrow> location \<Rightarrow> real \<Rightarrow> route option \<Rightarrow> route option" where
  "choose_route_loop [] wd st max_probability chosen_route = chosen_route"
| "choose_route_loop (r # rs) wd st max_probability chosen_route =
     (if start_at r = st \<and> wd \<in> set (weekdays r) \<and> probability r > max_probability
      then choose_route_loop rs wd st (probability r) (Some r)
      else choose_route_loop rs wd st max_probability chosen_route)"

definition choose_route :: "route list \<Rightarrow> int \<Rightarrow> location \<Rightarrow> error + route" where
  "choose_route routes wd st =
     (case choose_route_loop routes wd st 0.0 None of
        None \<Rightarrow> Inl (NoAvailableRouteError (''Starting at location '' @ quote @ name st @ quote))
      | Some r \<Rightarrow> Inr r)"

section \<open>Trace engine\<close>

text \<open>
  The process-wide random source is a sequence of raw draws, consumed one per call.
  \<^verbatim>\<open>random.randint(a, b)\<close> returns some integer of \<open>[a, b]\<close> and raises \<^verbatim>\<open>ValueError\<close> when
  the range is empty; every value of the range is the result for some raw draw.
\<close>

type_synonym rng = "nat \<Rightarrow> nat"

definition randint :: "rng \<Rightarrow> int \<Rightarrow> int \<Rightarrow> error + (int \<times> rng)" where
  "randint g a b =
     (if a \<le> b then Inr (a + int (g 0 mod nat (b - a + 1)), \<lambda>n. g (Suc n))
      else Inl (ValueError ''empty range for randrange()''))"

definition random_visit :: "location \<Rightarrow> rng \<Rightarrow> error + (int \<times> rng)" where
  "random_visit l g = randint g (fst (visit_time l)) (snd (visit_time l))"

text \<open>\<^verbatim>\<open>datetime.weekday()\<close>: Monday is 0; second 0 is the start of a Monday.\<close>

definition weekday :: "int \<Rightarrow> int" where
  "weekday t = (t div 86400) mod 7"

type_synonym ping = "location \<times> int"

text \<open>The \<^verbatim>\<open>for wp in route.waypoints\<close> loop of \<^verbatim>\<open>trace\<close>, lines 276 to 278.\<close>

fun trace_waypoints ::
  "location list \<Rightarrow> int \<Rightarrow> ping list \<Rightarrow> rng \<Rightarrow> error + (int \<times> ping list \<times> rng)" where
  "trace_waypoints [] tc pts g = Inr (tc, pts, g)"
| "trace_waypoints (wp # wps) tc pts g =
     (case random_visit wp g of
        Inl e \<Rightarrow> Inl e
      | Inr (d, g') \<Rightarrow> trace_waypoints wps (tc + d) (pts @ [(wp, tc)]) g')"

text \<open>The variables of the \<^verbatim>\<open>while\<close> loop of \<^verbatim>\<open>trace\<close>, and the random source.\<close>

record trace_state =
  Tc :: int
  Lc :: location
  points :: "ping list"
  source :: rng

text \<open>One pass through the body of the \<^verbatim>\<open>while\<close> loop, lines 269 to 285.\<close>

definition trace_body :: "route list \<Rightarrow> trace_state \<Rightarrow> error + trace_state" where
  "trace_body routes s =
     (case choose_route routes (weekday (Tc s)) (Lc s) of
        Inl e \<Rightarrow> Inl e
      | Inr r \<Rightarrow>
          (case random_visit (start_at r) (source s) of
             Inl e \<Rightarrow> Inl e
           | Inr (vt, g1) \<Rightarrow>
               (case trace_waypoints (waypoints r) (Tc s + vt)
                       (points s @ map (\<lambda>pingtime. (start_at r, pingtime))
                                      (generate_pings (start_at r) (Tc s) vt)) g1 of
                  Inl e \<Rightarrow> Inl e
                | Inr (tc2, pts2, g2) \<Rightarrow>
                    (case random_visit (end_at r) g2 of
                       Inl e \<Rightarrow> Inl e
                     | Inr (vt', g3) \<Rightarrow>
                         Inr \<lparr>Tc = tc2 + vt', Lc = end_at r,
                              points = pts2 @ map (\<lambda>pingtime. (end_at r, pingtime))
                                                 (generate_pings (end_at r) tc2 vt'),
                              source = g3\<rparr>))))"

text \<open>
  The \<^verbatim>\<open>while Tc < end_time\<close> loop, lines 268 to 287. The loop need not end: \<open>None\<close> is
  a run that never returns, \<open>Some (Inl e)\<close> a run that raises \<open>e\<close>, \<open>Some (Inr pts)\<close> a
  run that returns \<open>pts\<close>.
\<close>

partial_function (option) trace_loop ::
  "route list \<Rightarrow> int \<Rightarrow> trace_state \<Rightarrow> (error + ping list) option" where
  "trace_loop routes end_time s =
     (if Tc s < end_time
      then (case trace_body routes s of
              Inl e \<Rightarrow> Some (Inl e)
            | Inr s' \<Rightarrow> trace_loop routes end_time s')
      else Some (Inr (points s)))"

text \<open>
  \<^verbatim>\<open>trace\<close>, lines 232 to 287; \<open>routes\<close> is \<^verbatim>\<open>self.routes\<close>, \<open>end_time\<close> is \<open>None\<close> when
  the argument is omitted.
\<close>

definition trace ::
  "route list \<Rightarrow> pyval \<Rightarrow> pyval \<Rightarrow> int option \<Rightarrow> rng \<Rightarrow> (error + ping list) option" where
  "trace routes start_v start_time_v end_time g =
     (case start_v of
        PLoc l \<Rightarrow>
          (case start_time_v of
             PTime t \<Rightarrow>
               trace_loop routes (case end_time of None \<Rightarrow> t + 86400 | Some e \<Rightarrow> e)
                 \<lparr>Tc = t, Lc = l, points = [], source = g\<rparr>
           | _ \<Rightarrow> Some (Inl (TypeError ''start_time must be a datetime instance'')))
      | _ \<Rightarrow> Some (Inl (TypeError ''start_at must be a Location instance'')))"

section \<open>Vocabulary of the properties\<close>

text \<open>A route is eligible when it starts at the current location and is active on the weekday.\<close>

definition eligible :: "int \<Rightarrow> location \<Rightarrow> route \<Rightarrow> bool" where
  "eligible wd st r = (start_at r = st \<and> wd \<in> set (weekdays r))"

text \<open>
  The shape of one endpoint of a \<^verbatim>\<open>visit_time\<close> value and its number of seconds: a bare
  integer, or an integer followed by \<open>h\<close>, \<open>m\<close> or \<open>s\<close>. An integer is what \<^verbatim>\<open>int\<close>
  accepts.
\<close>

inductive dwell_part :: "string \<Rightarrow> int \<Rightarrow> bool" where
  bare: "py_int p = Some n \<Longrightarrow> dwell_part p n"
| hours: "py_int q = Some n \<Longrightarrow> dwell_part (q @ ''h'') (n * 3600)"
| minutes: "py_int q = Some n \<Longrightarrow> dwell_part (q @ ''m'') (n * 60)"
| seconds: "py_int q = Some n \<Longrightarrow> dwell_part (q @ ''s'') n"

code_pred dwell_part .

text \<open>
  The state of the \<^verbatim>\<open>while\<close> loop of \<^verbatim>\<open>trace\<close> after \<open>n\<close> complete passes, when the
  loop makes that many passes without raising.
\<close>

fun trace_iters :: "nat \<Rightarrow> route list \<Rightarrow> int \<Rightarrow> trace_state \<Rightarrow> trace_state option" where
  "trace_iters 0 routes end_time s = Some s"
| "trace_iters (Suc n) routes end_time s =
     (if Tc s < end_time
      then (case trace_body routes s of
              Inl e \<Rightarrow> None
            | Inr s' \<Rightarrow> trace_iters n routes end_time s')
      else None)"

text \<open>
  The locations that can become the current location of a trace started at \<open>l0\<close>; the
  locations a route passes; the precondition that every reachable location has a
  strictly positive dwell minimum; and the precondition that no waypoint of a route
  starting at a reachable location has a negative dwell minimum.
\<close>

inductive reachable :: "route list \<Rightarrow> location \<Rightarrow> location \<Rightarrow> bool"
  for routes :: "route list" and l0 :: location where
  start: "reachable routes l0 l0"
| step: "reachable routes l0 (start_at r) \<Longrightarrow> r \<in> set routes \<Longrightarrow> reachable routes l0 (end_at r)"

code_pred reachable .

definition on_route :: "route \<Rightarrow> location \<Rightarrow> bool" where
  "on_route r l = (l = start_at r \<or> l \<in> set (waypoints r) \<or> l = end_at r)"

definition reachable_positive :: "route list \<Rightarrow> location \<Rightarrow> bool" where
  "reachable_positive routes l0 = (\<forall>l. reachable routes l0 l \<longrightarrow> 0 < fst (visit_time l))"

definition waypoints_nonnegative :: "route list \<Rightarrow> location \<Rightarrow> bool" where
  "waypoints_nonnegative routes l0 =
     (\<forall>r \<in> set routes. reachable routes l0 (start_at r) \<longrightarrow>
        (\<forall>w \<in> set (waypoints r). 0 \<le> fst (visit_time w)))"

text \<open>
  A waypoint whose dwell range starts at zero; the relation between two adjacent ping
  events (timestamps do not decrease, and a tie needs the earlier event to be at such a
  waypoint); the precondition that every location on a route has a range of non-negative
  integers with minimum \<open>\<le>\<close> maximum; and the invariant of the \<^verbatim>\<open>while\<close> loop of
  \<^verbatim>\<open>trace\<close> that relates the events produced so far to \<^verbatim>\<open>current_time\<close>.
\<close>

definition zero_dwell_waypoint :: "route list \<Rightarrow> location \<Rightarrow> bool" where
  "zero_dwell_waypoint routes l =
     ((\<exists>r \<in> set routes. l \<in> set (waypoints r)) \<and> fst (visit_time l) = 0)"

definition tie_ok :: "route list \<Rightarrow> ping \<Rightarrow> ping \<Rightarrow> bool" where
  "tie_ok routes p q =
     (snd p \<le> snd q \<and> (snd p = snd q \<longrightarrow> zero_dwell_waypoint routes (fst p)))"

definition dwell_ranges_ok :: "route list \<Rightarrow> bool" where
  "dwell_ranges_ok routes =
     (\<forall>r \<in> set routes. \<forall>l. on_route r l \<longrightarrow>
        0 \<le> fst (visit_time l) \<and> fst (visit_time l) \<le> snd (visit_time l))"

definition trace_inv :: "route list \<Rightarrow> ping list \<Rightarrow> int \<Rightarrow> bool" where
  "trace_inv routes pts tc =
     (successively (tie_ok routes) pts
      \<and> (pts \<noteq> [] \<longrightarrow> snd (last pts) \<le> tc
            \<and> (snd (last pts) = tc \<longrightarrow> zero_dwell_waypoint routes (fst (last pts)))))"

section \<open>Example configuration\<close>

text \<open>Locations used to run the definitions on concrete inputs.\<close>

definition loc_A :: location where
  "loc_A = \<lparr>ident = 1, name = ''A'', latitude = 1.0, longitude = 2.0, visit_time = (0, 0)\<rparr>"

definition loc_B :: location where
  "loc_B = \<lparr>ident = 2, name = ''B'', latitude = 3.0, longitude = 4.0, visit_time = (0, 0)\<rparr>"

definition route_AB :: "string \<Rightarrow> real \<Rightarrow> route" where
  "route_AB rn p = \<lparr>rname = rn, start_at = loc_A, waypoints = [], end_at = loc_B,
                     probability = p, weekdays = [0..7]\<rparr>"

definition ex_routes :: "route list" where
  "ex_routes = [route_AB ''r1'' 0.5, route_AB ''r2'' 0.9, route_AB ''r3'' 0.9, route_AB ''r0'' 0]"

definition loc_H :: location where
  "loc_H = \<lparr>ident = 3, name = ''H'', latitude = 5.0, longitude = 6.0, visit_time = (600, 600)\<rparr>"

definition route_HB :: route where
  "route_HB = \<lparr>rname = ''HB'', start_at = loc_H, waypoints = [], end_at = loc_B,
                 probability = 1.0, weekdays = [0..7]\<rparr>"

definition route_AA :: route where
  "route_AA = \<lparr>rname = ''AA'', start_at = loc_A, waypoints = [], end_at = loc_A,
                 probability = 1.0, weekdays = [0..7]\<rparr>"

definition loc_W :: location where
  "loc_W = \<lparr>ident = 4, name = ''W'', latitude = 7.0, longitude = 8.0, visit_time = (0, 0)\<rparr>"

definition route_AWH :: route where
  "route_AWH = \<lparr>rname = ''AWH'', start_at = loc_A, waypoints = [loc_W], end_at = loc_H,
                  probability = 1.0, weekdays = [0..7]\<rparr>"

definition route_HWH :: route where
  "route_HWH = \<lparr>rname = ''HWH'', start_at = loc_H, waypoints = [loc_W], end_at = loc_H,
                  probability = 1.0, weekdays = [0..7]\<rparr>"

definition loc_N :: location where
  "loc_N = \<lparr>ident = 5, name = ''N'', latitude = 9.0, longitude = 10.0,
             visit_time = (- 1200, - 1200)\<rparr>"

definition route_HNH :: route where
  "route_HNH = \<lparr>rname = ''HNH'', start_at = loc_H, waypoints = [loc_N], end_at = loc_H,
                  probability = 1.0, weekdays = [0..7]\<rparr>"

definition route_AHWB :: route where
  "route_AHWB = \<lparr>rname = ''AHWB'', start_at = loc_A, waypoints = [loc_H, loc_W],
                   end_at = loc_B, probability = 1.0, weekdays = [0..7]\<rparr>"

section \<open>Properties of the ping expansion\<close>

lemma div600_bounds:
  fixes x q :: int
  assumes "q = (x + 599) div 600"
  shows "600 * q - 600 < x" and "x \<le> 600 * q"
proof -
  define r where "r = (x + 599) mod 600"
  have "x + 599 = 600 * q + r"
    unfolding assms r_def by simp
  moreover have "0 \<le> r" "r < 600"
    unfolding r_def by simp_all
  ultimately show "600 * q - 600 < x" and "x \<le> 600 * q"
    by linarith+
qed


lemma div600_nonpos:
  fixes x :: int
  assumes "x \<le> 0"
  shows "nat ((x + 599) div 600) = 0"
proof -
  have "(x + 599) div 600 \<le> 599 div 600"
    using assms by (intro zdiv_mono1) simp_all
  then show ?thesis by simp
qed

lemma div600_step:
  fixes x :: int
  assumes "0 < x"
  shows "nat ((x + 599) div 600) = Suc (nat ((x - 600 + 599) div 600))"
proof -
  define q where "q = (x + 599) div 600"
  have "(x - 600 + 599) div 600 = q - 1"
    unfolding q_def using div_add_self2 [of 600 "x - 600 + 599"] by simp
  moreover have "0 < q"
    using div600_bounds(2) [OF q_def] assms by linarith
  ultimately show ?thesis unfolding q_def by simp
qed

lemma generate_pings_loop_eq:
  "generate_pings_loop tc e acc =
     acc @ map (\<lambda>k. tc + VISIT_PING_TIME * int k) [0..<nat ((e - tc + 599) div 600)]"
proof (induction tc e acc rule: generate_pings_loop.induct)
  case (1 tc e acc)
  show ?case
  proof (cases "tc < e")
    case True
    define n where "n = nat ((e - (tc + 600) + 599) div 600)"
    have n: "nat ((e - tc + 599) div 600) = Suc n"
      using div600_step [of "e - tc"] True unfolding n_def by (simp add: algebra_simps)
    have "generate_pings_loop tc e acc = generate_pings_loop (tc + VISIT_PING_TIME) e (acc @ [tc])"
      using True by (subst generate_pings_loop.simps) simp
    also have "\<dots> = (acc @ [tc]) @ map (\<lambda>k. tc + VISIT_PING_TIME + VISIT_PING_TIME * int k) [0..<n]"
      using 1 True by (simp add: n_def VISIT_PING_TIME_def)
    also have "\<dots> = acc @ map (\<lambda>k. tc + VISIT_PING_TIME * int k) [0..<Suc n]"
      by (simp add: upt_conv_Cons map_Suc_upt [symmetric] algebra_simps del: upt_Suc)
    finally show ?thesis using n by simp
  next
    case False
    then have "nat ((e - tc + 599) div 600) = 0"
      by (intro div600_nonpos) simp
    with False show ?thesis by (subst generate_pings_loop.simps) simp
  qed
qed



section \<open>Properties of route construction\<close>

text \<open>
  C7. A Route constructed without a \<^verbatim>\<open>weekdays\<close> argument, also through the loader for a
  section with no \<^verbatim>\<open>weekdays\<close> key, is stated to be active on exactly the seven days
  \<open>0\<close> to \<open>6\<close>. The constructor's default is \<^verbatim>\<open>range(8)\<close>: the route below gets the
  eight values \<open>0\<close> to \<open>7\<close>, against the class's own documentation.
\<close>

theorem Route_init_default_weekdays:
  "map_sum id weekdays (Route_init ''r'' (PLoc loc_A) (PLoc loc_B) PNone (PFloat 1.0) None)
     = Inr [0, 1, 2, 3, 4, 5, 6, 7]
   \<and> map_sum id weekdays (load_route ''r'' (PLoc loc_A) (PLoc loc_B) PNone (PFloat 1.0) None)
     = Inr [0, 1, 2, 3, 4, 5, 6, 7]"
  by (simp add: Route_init_def load_route_def upto_rec1)

text \<open>
  C8. A probability outside \<open>[0, 1]\<close> is stated to be rejected by the constructor. The
  guard is \<^verbatim>\<open>probability < 0.0 and probability > 1.0\<close>, which no number satisfies:
  construction succeeds with probability \<open>1.5\<close> and with probability \<open>- 0.5\<close>.
\<close>

theorem Route_init_probability_unchecked:
  "map_sum id probability (Route_init ''r'' (PLoc loc_A) (PLoc loc_B) PNone (PFloat 1.5) None)
     = Inr 1.5
   \<and> map_sum id probability (Route_init ''r'' (PLoc loc_A) (PLoc loc_B) PNone (PFloat (- 0.5)) None)
     = Inr (- 0.5)"
  by (simp add: Route_init_def)

lemma Route_init_weekdays:
  assumes "Route_init rn s e w p (Some ds) = Inr r" and "ds \<noteq> []"
  shows "weekdays r = ds"
proof -
  from assms(1) obtain st where s: "s = PLoc st"
    by (cases s) (simp_all add: Route_init_def)
  from assms(1) obtain en where e: "e = PLoc en"
    unfolding s by (cases e) (simp_all add: Route_init_def split: if_splits)
  from assms(1) obtain pr where p: "p = PFloat pr"
    unfolding s e by (cases p) (simp_all add: Route_init_def split: if_splits)
  from assms show ?thesis
    unfolding s e p by (auto simp: Route_init_def split: if_splits sum.splits)
qed


lemma parse_weekdays_loop_range:
  "parse_weekdays_loop parts rn acc = Inr ds \<Longrightarrow> \<forall>d \<in> set acc. 0 \<le> d \<and> d \<le> 6
     \<Longrightarrow> \<forall>d \<in> set ds. 0 \<le> d \<and> d \<le> 6"
proof (induction parts arbitrary: acc)
  case Nil
  then show ?case by simp
next
  case (Cons part parts)
  from Cons.prems(1) obtain day where day: "py_int part = Some day" "0 \<le> day" "day \<le> 6"
    and rest: "parse_weekdays_loop parts rn (acc @ [day]) = Inr ds"
    by (auto split: option.splits if_splits)
  from Cons.prems(2) day have "\<forall>d \<in> set (acc @ [day]). 0 \<le> d \<and> d \<le> 6"
    by simp
  with Cons.IH [OF rest] show ?case .
qed

lemma parse_weekdays_loop_length:
  "parse_weekdays_loop parts rn acc = Inr ds \<Longrightarrow> length ds = length acc + length parts"
proof (induction parts arbitrary: acc)
  case Nil
  then show ?case by simp
next
  case (Cons part parts)
  from Cons.prems obtain day where
    rest: "parse_weekdays_loop parts rn (acc @ [day]) = Inr ds"
    by (auto split: option.splits if_splits)
  from Cons.IH [OF rest] show ?case by simp
qed

lemma split_str_nonempty: "split_str sep s \<noteq> []"
  by (induction s) (simp_all split: list.splits)

lemma parse_weekdays_nonempty:
  assumes "parse_weekdays wds rn = Inr ds"
  shows "ds \<noteq> []"
proof -
  from assms have "length ds = length (split_str (CHR '','') (remove_spaces wds))"
    unfolding parse_weekdays_def by (simp add: parse_weekdays_loop_length)
  with split_str_nonempty [of "CHR '',''" "remove_spaces wds"] show ?thesis
    by auto
qed

text \<open>
  C10. Whenever \<^verbatim>\<open>parse_weekdays\<close> returns, every element of the returned tuple is an
  integer from \<open>0\<close> to \<open>6\<close>; so a Route loaded from a section with an explicit
  \<^verbatim>\<open>weekdays\<close> key has its weekdays within \<open>{0..6}\<close>, and a loaded Route whose
  weekdays contain \<open>7\<close> comes from a section without the key.
\<close>

theorem parse_weekdays_range:
  "(parse_weekdays wds rn = Inr ds \<longrightarrow> (\<forall>d \<in> set ds. 0 \<le> d \<and> d \<le> 6))
   \<and> (load_route rn s e w p (Some wds) = Inr r \<longrightarrow> set (weekdays r) \<subseteq> {0..6})
   \<and> (load_route rn s e w p key = Inr r' \<and> 7 \<in> set (weekdays r') \<longrightarrow> key = None)"
proof -
  have a: "\<forall>d \<in> set ds. 0 \<le> d \<and> d \<le> 6" if "parse_weekdays wds rn = Inr ds" for wds ds
    using that parse_weekdays_loop_range [of _ rn "[]" ds]
    unfolding parse_weekdays_def by simp
  have b: "set (weekdays r) \<subseteq> {0..6}" if "load_route rn s e w p (Some wds) = Inr r" for wds r
  proof -
    from that obtain ds where ds: "parse_weekdays wds rn = Inr ds"
      and r: "Route_init rn s e w p (Some ds) = Inr r"
      by (auto simp: load_route_def split: sum.splits)
    from r parse_weekdays_nonempty [OF ds] have "weekdays r = ds"
      by (rule Route_init_weekdays)
    with a [OF ds] show ?thesis by auto
  qed
  have c: "key = None" if "load_route rn s e w p key = Inr r'" "7 \<in> set (weekdays r')"
  proof (cases key)
    case None
    then show ?thesis .
  next
    case (Some wds)
    with that(1) b have "set (weekdays r') \<subseteq> {0..6}" by simp
    with that(2) show ?thesis by auto
  qed
  show ?thesis using a b c by blast
qed

theorem parse_weekdays_range_witness:
  "parse_weekdays ''0, 6,3'' ''r'' = Inr [0, 6, 3]
   \<and> map_sum id weekdays (load_route ''r'' (PLoc loc_A) (PLoc loc_B) PNone (PFloat 1.0) (Some ''0, 6,3''))
       = Inr [0, 6, 3]
   \<and> set [0, 6, 3 :: int] \<subseteq> {0..6}
   \<and> map_sum id (\<lambda>r. 7 \<in> set (weekdays r))
         (load_route ''r'' (PLoc loc_A) (PLoc loc_B) PNone (PFloat 1.0) None) = Inr True"
proof -
  have p: "parse_weekdays ''0, 6,3'' ''r'' = Inr [0, 6, 3]"
    by code_simp
  have l: "load_route ''r'' (PLoc loc_A) (PLoc loc_B) PNone (PFloat 1.0) (Some ''0, 6,3'')
      = Inr \<lparr>rname = ''r'', start_at = loc_A, waypoints = [], end_at = loc_B,
              probability = 1.0, weekdays = [0, 6, 3]\<rparr>"
    unfolding load_route_def by (simp add: p Route_init_def)
  have n: "load_route ''r'' (PLoc loc_A) (PLoc loc_B) PNone (PFloat 1.0) None
      = Inr \<lparr>rname = ''r'', start_at = loc_A, waypoints = [], end_at = loc_B,
              probability = 1.0, weekdays = [0, 1, 2, 3, 4, 5, 6, 7]\<rparr>"
    by (simp add: load_route_def Route_init_def upto_rec1)
  note range = parse_weekdays_range [where wds = "''0, 6,3''" and rn = "''r''" and ds = "[0, 6, 3]"
        and s = "PLoc loc_A" and e = "PLoc loc_B" and w = PNone and p = "PFloat 1.0" and key = None]
  show ?thesis
    using range p l n by simp
qed

section \<open>Properties of route selection\<close>

lemma choose_route_loop_none:
  "\<forall>x \<in> set rs. eligible wd st x \<longrightarrow> probability x \<le> mp
     \<Longrightarrow> choose_route_loop rs wd st mp ch = ch"
  by (induction rs arbitrary: mp ch) (auto simp: eligible_def)

lemma choose_route_loop_some:
  "\<exists>x \<in> set rs. eligible wd st x \<and> mp < probability x
     \<Longrightarrow> \<exists>pre r post. rs = pre @ r # post \<and> choose_route_loop rs wd st mp ch = Some r
           \<and> eligible wd st r \<and> mp < probability r
           \<and> (\<forall>x \<in> set pre. eligible wd st x \<longrightarrow> probability x < probability r)
           \<and> (\<forall>x \<in> set post. eligible wd st x \<longrightarrow> probability x \<le> probability r)"
proof (induction rs arbitrary: mp ch)
  case Nil
  then show ?case by simp
next
  case (Cons a rs)
  show ?case
  proof (cases "eligible wd st a \<and> mp < probability a")
    case True
    then have step: "choose_route_loop (a # rs) wd st mp ch
        = choose_route_loop rs wd st (probability a) (Some a)"
      by (simp add: eligible_def)
    show ?thesis
    proof (cases "\<exists>x \<in> set rs. eligible wd st x \<and> probability a < probability x")
      case better: True
      from Cons.IH [OF better, of "Some a"] obtain pre r post where
        r1: "rs = pre @ r # post"
        and r2: "choose_route_loop rs wd st (probability a) (Some a) = Some r"
        and r3: "eligible wd st r"
        and r4: "probability a < probability r"
        and r5: "\<forall>x \<in> set pre. eligible wd st x \<longrightarrow> probability x < probability r"
        and r6: "\<forall>x \<in> set post. eligible wd st x \<longrightarrow> probability x \<le> probability r"
        by blast
      show ?thesis
      proof (intro exI conjI)
        show "a # rs = (a # pre) @ r # post" using r1 by simp
        show "choose_route_loop (a # rs) wd st mp ch = Some r" using step r2 by simp
        show "eligible wd st r" by (rule r3)
        show "mp < probability r" using True r4 by linarith
        show "\<forall>x \<in> set (a # pre). eligible wd st x \<longrightarrow> probability x < probability r"
        proof (intro ballI impI)
          fix x assume x: "x \<in> set (a # pre)" and e: "eligible wd st x"
          show "probability x < probability r"
          proof (cases "x = a")
            case True
            with r4 show ?thesis by simp
          next
            case False
            with x have "x \<in> set pre" by simp
            with r5 e show ?thesis by blast
          qed
        qed
        show "\<forall>x \<in> set post. eligible wd st x \<longrightarrow> probability x \<le> probability r"
          by (rule r6)
      qed
    next
      case False
      then have le: "\<forall>x \<in> set rs. eligible wd st x \<longrightarrow> probability x \<le> probability a"
        by (meson not_less)
      then have keep: "choose_route_loop rs wd st (probability a) (Some a) = Some a"
        by (rule choose_route_loop_none)
      show ?thesis
      proof (intro exI conjI)
        show "a # rs = [] @ a # rs" by simp
        show "choose_route_loop (a # rs) wd st mp ch = Some a" using step keep by simp
        show "eligible wd st a" using True by simp
        show "mp < probability a" using True by simp
        show "\<forall>x \<in> set []. eligible wd st x \<longrightarrow> probability x < probability a" by simp
        show "\<forall>x \<in> set rs. eligible wd st x \<longrightarrow> probability x \<le> probability a"
          by (rule le)
      qed
    qed
  next
    case False
    then have step: "choose_route_loop (a # rs) wd st mp ch = choose_route_loop rs wd st mp ch"
      by (auto simp: eligible_def)
    from Cons.prems False have "\<exists>x \<in> set rs. eligible wd st x \<and> mp < probability x"
      by auto
    from Cons.IH [OF this, of ch] obtain pre r post where
      r1: "rs = pre @ r # post"
      and r2: "choose_route_loop rs wd st mp ch = Some r"
      and r3: "eligible wd st r"
      and r4: "mp < probability r"
      and r5: "\<forall>x \<in> set pre. eligible wd st x \<longrightarrow> probability x < probability r"
      and r6: "\<forall>x \<in> set post. eligible wd st x \<longrightarrow> probability x \<le> probability r"
      by blast
    show ?thesis
    proof (intro exI conjI)
      show "a # rs = (a # pre) @ r # post" using r1 by simp
      show "choose_route_loop (a # rs) wd st mp ch = Some r" using step r2 by simp
      show "eligible wd st r" by (rule r3)
      show "mp < probability r" by (rule r4)
      show "\<forall>x \<in> set (a # pre). eligible wd st x \<longrightarrow> probability x < probability r"
      proof (intro ballI impI)
        fix x assume x: "x \<in> set (a # pre)" and e: "eligible wd st x"
        show "probability x < probability r"
        proof (cases "x = a")
          case True
          with False e have "probability a \<le> mp" by auto
          with r4 True show ?thesis by simp
        next
          case False
          with x have "x \<in> set pre" by simp
          with r5 e show ?thesis by blast
        qed
      qed
      show "\<forall>x \<in> set post. eligible wd st x \<longrightarrow> probability x \<le> probability r"
        by (rule r6)
    qed
  qed
qed

text \<open>
  C3. \<^verbatim>\<open>choose_route\<close> returns the first route, in list order, among the eligible routes
  of highest probability: the returned route is eligible, its probability is positive,
  every eligible route before it has a strictly smaller probability and every eligible
  route after it has a probability that is not greater (so a tie at the maximum goes to
  the first route, and a route of probability \<open>0\<close> is never returned). A route is
  returned exactly when an eligible route of positive probability exists; otherwise the
  result is the \<^verbatim>\<open>NoAvailableRouteError\<close> whose message carries the name of the current
  location. The result depends on the route list, the weekday and the location only.
\<close>

theorem choose_route_first_max:
  "(choose_route routes wd st = Inr r \<longrightarrow>
      (\<exists>pre post. routes = pre @ r # post \<and> eligible wd st r \<and> 0 < probability r
         \<and> (\<forall>x \<in> set pre. eligible wd st x \<longrightarrow> probability x < probability r)
         \<and> (\<forall>x \<in> set post. eligible wd st x \<longrightarrow> probability x \<le> probability r)))
   \<and> ((\<exists>x \<in> set routes. eligible wd st x \<and> 0 < probability x) \<longrightarrow>
         (\<exists>r'. choose_route routes wd st = Inr r'))
   \<and> (\<not> (\<exists>x \<in> set routes. eligible wd st x \<and> 0 < probability x) \<longrightarrow>
         choose_route routes wd st
           = Inl (NoAvailableRouteError (''Starting at location '' @ quote @ name st @ quote)))"
proof (cases "\<exists>x \<in> set routes. eligible wd st x \<and> 0 < probability x")
  case True
  from choose_route_loop_some [OF True, of None] obtain pre r0 post where
    r0: "routes = pre @ r0 # post" "choose_route_loop routes wd st 0 None = Some r0"
        "eligible wd st r0" "0 < probability r0"
        "\<forall>x \<in> set pre. eligible wd st x \<longrightarrow> probability x < probability r0"
        "\<forall>x \<in> set post. eligible wd st x \<longrightarrow> probability x \<le> probability r0"
    by blast
  have res: "choose_route routes wd st = Inr r0"
    by (simp add: choose_route_def r0(2))
  show ?thesis
  proof (intro conjI impI)
    assume "choose_route routes wd st = Inr r"
    with res have "r = r0" by simp
    with r0 show "\<exists>pre post. routes = pre @ r # post \<and> eligible wd st r \<and> 0 < probability r
         \<and> (\<forall>x \<in> set pre. eligible wd st x \<longrightarrow> probability x < probability r)
         \<and> (\<forall>x \<in> set post. eligible wd st x \<longrightarrow> probability x \<le> probability r)"
      by blast
  next
    show "\<exists>r'. choose_route routes wd st = Inr r'" using res by blast
  next
    assume "\<not> (\<exists>x \<in> set routes. eligible wd st x \<and> 0 < probability x)"
    with True show "choose_route routes wd st
           = Inl (NoAvailableRouteError (''Starting at location '' @ quote @ name st @ quote))"
      by contradiction
  qed
next
  case False
  then have "\<forall>x \<in> set routes. eligible wd st x \<longrightarrow> probability x \<le> 0"
    by (meson not_less)
  then have "choose_route_loop routes wd st 0 None = None"
    by (rule choose_route_loop_none)
  then have res: "choose_route routes wd st
      = Inl (NoAvailableRouteError (''Starting at location '' @ quote @ name st @ quote))"
    by (simp add: choose_route_def)
  with False show ?thesis by simp
qed

theorem choose_route_first_max_witness:
  "choose_route ex_routes 0 loc_A = Inr (route_AB ''r2'' 0.9)
   \<and> ex_routes = [route_AB ''r1'' 0.5] @ route_AB ''r2'' 0.9 # [route_AB ''r3'' 0.9, route_AB ''r0'' 0]
   \<and> eligible 0 loc_A (route_AB ''r2'' 0.9) \<and> 0 < probability (route_AB ''r2'' 0.9)
   \<and> (\<exists>x \<in> set ex_routes. eligible 0 loc_A x \<and> 0 < probability x)
   \<and> \<not> (\<exists>x \<in> set ex_routes. eligible 0 loc_B x \<and> 0 < probability x)
   \<and> choose_route ex_routes 0 loc_B
       = Inl (NoAvailableRouteError (''Starting at location '' @ quote @ ''B'' @ quote))"
proof -
  have ne: "loc_A \<noteq> loc_B"
    by (simp add: loc_A_def loc_B_def)
  have el: "eligible 0 loc_A (route_AB rn p)" for rn p
    by (simp add: eligible_def route_AB_def upto_rec1)
  have nel: "\<not> eligible 0 loc_B (route_AB rn p)" for rn p
    using ne by (simp add: eligible_def route_AB_def)
  have a: "\<exists>x \<in> set ex_routes. eligible 0 loc_A x \<and> 0 < probability x"
    by (simp add: ex_routes_def el) (simp add: route_AB_def)
  have b: "\<not> (\<exists>x \<in> set ex_routes. eligible 0 loc_B x \<and> 0 < probability x)"
    by (simp add: ex_routes_def nel)
  have c: "choose_route ex_routes 0 loc_A = Inr (route_AB ''r2'' 0.9)"
    using ne by (simp add: choose_route_def ex_routes_def route_AB_def upto_rec1)
  have d: "name loc_B = ''B''"
    by (simp add: loc_B_def)
  from choose_route_first_max [of ex_routes 0 loc_B] b d
  have e: "choose_route ex_routes 0 loc_B
       = Inl (NoAvailableRouteError (''Starting at location '' @ quote @ ''B'' @ quote))"
    by simp
  from choose_route_first_max [of ex_routes 0 loc_A "route_AB ''r2'' 0.9"] c
  have f: "eligible 0 loc_A (route_AB ''r2'' 0.9) \<and> 0 < probability (route_AB ''r2'' 0.9)"
    by blast
  have g: "ex_routes = [route_AB ''r1'' 0.5] @ route_AB ''r2'' 0.9 # [route_AB ''r3'' 0.9, route_AB ''r0'' 0]"
    by (simp add: ex_routes_def)
  from a b c e f g show ?thesis by blast
qed

section \<open>Properties of the dwell-time parser\<close>

lemma strip_keeps_last:
  assumes "s \<noteq> []" and "\<not> is_space (last s)"
  shows "strip s \<noteq> [] \<and> last (strip s) = last s"
proof -
  define t where "t = dropWhile is_space s"
  have "last s \<in> set s" using assms(1) by simp
  with assms(2) have t_ne: "t \<noteq> []"
    unfolding t_def by (auto simp: dropWhile_eq_Nil_conv)
  have "s = takeWhile is_space s @ t"
    unfolding t_def by simp
  then have "last s = last (takeWhile is_space s @ t)" by simp
  also have "\<dots> = last t" using t_ne by simp
  finally have last_t: "last t = last s" by simp
  have "rev t \<noteq> []" "hd (rev t) = last t"
    using t_ne by (simp_all add: hd_rev)
  then obtain u where u: "rev t = last t # u"
    by (cases "rev t") auto
  have "dropWhile is_space (rev t) = rev t"
    unfolding u using assms(2) last_t by simp
  then have "strip s = t"
    unfolding strip_def t_def by simp
  with t_ne last_t show ?thesis by simp
qed

lemma unsigned_int_last:
  assumes "unsigned_int ds = Some n"
  shows "ds \<noteq> [] \<and> is_digit (last ds)"
proof -
  from assms have ne: "ds \<noteq> []" and all: "list_all is_digit ds"
    by (auto simp: unsigned_int_def split: if_splits)
  from ne have "last ds \<in> set ds" by simp
  with all have "is_digit (last ds)" by (simp add: list_all_iff)
  with ne show ?thesis by simp
qed

lemma py_int_last:
  assumes "py_int p = Some n" and "p \<noteq> []" and "\<not> is_space (last p)"
  shows "is_digit (last p)"
proof -
  from strip_keeps_last [OF assms(2,3)] obtain x r where
    t: "strip p = x # r" and l: "last (x # r) = last p"
    by (cases "strip p") auto
  from assms(1) t consider
      (neg) m where "unsigned_int r = Some m"
    | (pos) m where "unsigned_int (x # r) = Some m"
    by (auto simp: py_int_def split: if_splits)
  then show ?thesis
  proof cases
    case neg
    from unsigned_int_last [OF neg] l show ?thesis by simp
  next
    case pos
    from unsigned_int_last [OF pos] l show ?thesis by simp
  qed
qed

lemma py_int_no_unit:
  assumes "py_int p = Some n" and "c \<in> set ''hms''"
  shows "\<not> endswith p c"
proof
  assume e: "endswith p c"
  then have "p \<noteq> []" "last p = c" by (simp_all add: endswith_def)
  moreover from assms(2) have "\<not> is_space c" "\<not> is_digit c"
    by (auto simp: is_space_def is_digit_def)
  ultimately show False using py_int_last [OF assms(1)] by simp
qed

lemma dwell_part_iff: "dwell_part p n \<longleftrightarrow> parse_visit_time_part p = Some n"
proof
  assume "dwell_part p n"
  then show "parse_visit_time_part p = Some n"
  proof cases
    case bare
    with py_int_no_unit [OF bare] show ?thesis
      by (simp add: parse_visit_time_part_def)
  next
    case (hours q m)
    then show ?thesis by (simp add: parse_visit_time_part_def endswith_def)
  next
    case (minutes q m)
    then show ?thesis by (simp add: parse_visit_time_part_def endswith_def)
  next
    case (seconds q)
    then show ?thesis by (simp add: parse_visit_time_part_def endswith_def)
  qed
next
  assume a: "parse_visit_time_part p = Some n"
  have split: "p = butlast p @ [c]" if "endswith p c" for c
    using that by (auto simp: endswith_def)
  show "dwell_part p n"
  proof (cases "endswith p (CHR ''h'')")
    case True
    with a obtain m where "py_int (butlast p) = Some m" "n = m * 3600"
      by (auto simp: parse_visit_time_part_def)
    with dwell_part.hours [of "butlast p" m] split [OF True] show ?thesis by simp
  next
    case nh: False
    show ?thesis
    proof (cases "endswith p (CHR ''m'')")
      case True
      with a nh obtain m where "py_int (butlast p) = Some m" "n = m * 60"
        by (auto simp: parse_visit_time_part_def)
      with dwell_part.minutes [of "butlast p" m] split [OF True] show ?thesis by simp
    next
      case nm: False
      show ?thesis
      proof (cases "endswith p (CHR ''s'')")
        case True
        with a nh nm have "py_int (butlast p) = Some n"
          by (auto simp: parse_visit_time_part_def)
        with dwell_part.seconds [of "butlast p" n] split [OF True] show ?thesis by simp
      next
        case False
        with a nh nm have "py_int p = Some n"
          by (simp add: parse_visit_time_part_def)
        then show ?thesis by (rule dwell_part.bare)
      qed
    qed
  qed
qed

text \<open>
  C9. When the \<^verbatim>\<open>visit_time\<close> string, spaces removed, splits on commas into exactly two
  parts, each a bare integer or an integer with suffix \<open>h\<close>, \<open>m\<close> or \<open>s\<close>,
  \<^verbatim>\<open>parse_visit_time\<close> returns the pair of their values in seconds (an \<open>h\<close> part times
  3600, an \<open>m\<close> part times 60, an \<open>s\<close> or bare part as it is); for every string not of
  that shape it raises the \<^verbatim>\<open>ValueError\<close> whose message names the location.
\<close>

theorem parse_visit_time_shape:
  "(split_str (CHR '','') (remove_spaces vt) = [p1, p2] \<and> dwell_part p1 a \<and> dwell_part p2 b
      \<longrightarrow> parse_visit_time vt loc = Inr (a, b))
   \<and> (\<not> (\<exists>p1 p2 a b. split_str (CHR '','') (remove_spaces vt) = [p1, p2]
            \<and> dwell_part p1 a \<and> dwell_part p2 b)
      \<longrightarrow> parse_visit_time vt loc
            = Inl (ValueError (''Invalid visit_time '' @ quote @ vt @ quote
                     @ '' for location '' @ quote @ loc @ quote)))"
proof (intro conjI impI)
  assume "split_str (CHR '','') (remove_spaces vt) = [p1, p2] \<and> dwell_part p1 a \<and> dwell_part p2 b"
  then show "parse_visit_time vt loc = Inr (a, b)"
    by (simp add: parse_visit_time_def dwell_part_iff)
next
  define parts where "parts = split_str (CHR '','') (remove_spaces vt)"
  assume no: "\<not> (\<exists>p1 p2 a b. split_str (CHR '','') (remove_spaces vt) = [p1, p2]
            \<and> dwell_part p1 a \<and> dwell_part p2 b)"
  have "parse_visit_time vt loc = Inl (visit_time_error vt loc)"
  proof (cases "length parts = 2")
    case False
    then show ?thesis by (simp add: parse_visit_time_def parts_def)
  next
    case True
    then obtain q1 q2 where q: "parts = [q1, q2]"
      by (cases parts; cases "tl parts") auto
    have "parse_visit_time_parts parts = None"
    proof (rule ccontr)
      assume "parse_visit_time_parts parts \<noteq> None"
      then obtain x y where "parse_visit_time_part q1 = Some x" "parse_visit_time_part q2 = Some y"
        unfolding q by (auto split: option.splits)
      then have "dwell_part q1 x" "dwell_part q2 y"
        by (simp_all add: dwell_part_iff)
      with no q show False unfolding parts_def by blast
    qed
    then show ?thesis by (simp add: parse_visit_time_def parts_def [symmetric] q)
  qed
  then show "parse_visit_time vt loc
            = Inl (ValueError (''Invalid visit_time '' @ quote @ vt @ quote
                     @ '' for location '' @ quote @ loc @ quote))"
    by (simp add: visit_time_error_def)
qed

theorem parse_visit_time_shape_witness:
  "split_str (CHR '','') (remove_spaces ''5m, 1h'') = [''5m'', ''1h'']
   \<and> dwell_part ''5m'' 300 \<and> dwell_part ''1h'' 3600
   \<and> parse_visit_time ''5m, 1h'' ''A'' = Inr (300, 3600)
   \<and> \<not> (\<exists>p1 p2 a b. split_str (CHR '','') (remove_spaces ''10,20,30'') = [p1, p2]
            \<and> dwell_part p1 a \<and> dwell_part p2 b)
   \<and> parse_visit_time ''10,20,30'' ''A''
        = Inl (ValueError (''Invalid visit_time '' @ quote @ ''10,20,30'' @ quote
                 @ '' for location '' @ quote @ ''A'' @ quote))"
proof -
  have sp: "split_str (CHR '','') (remove_spaces ''5m, 1h'') = [''5m'', ''1h'']"
    by code_simp
  have i5: "py_int ''5'' = Some 5" and i1: "py_int ''1'' = Some 1"
    by code_simp+
  have m: "dwell_part ''5m'' 300"
    using dwell_part.minutes [OF i5] by simp
  have h: "dwell_part ''1h'' 3600"
    using dwell_part.hours [OF i1] by simp
  have sp3: "split_str (CHR '','') (remove_spaces ''10,20,30'') = [''10'', ''20'', ''30'']"
    by code_simp
  have no: "\<not> (\<exists>p1 p2 a b. split_str (CHR '','') (remove_spaces ''10,20,30'') = [p1, p2]
            \<and> dwell_part p1 a \<and> dwell_part p2 b)"
    unfolding sp3 by simp
  from parse_visit_time_shape [of "''5m, 1h''" "''5m''" "''1h''" 300 3600 "''A''"] sp m h
  have ok: "parse_visit_time ''5m, 1h'' ''A'' = Inr (300, 3600)"
    by blast
  from parse_visit_time_shape [of "''10,20,30''" _ _ _ _ "''A''"] no
  have err: "parse_visit_time ''10,20,30'' ''A''
        = Inl (ValueError (''Invalid visit_time '' @ quote @ ''10,20,30'' @ quote
                 @ '' for location '' @ quote @ ''A'' @ quote))"
    by blast
  from sp m h ok no err show ?thesis by blast
qed

section \<open>Properties of the trace engine\<close>

lemma randint_range:
  assumes "randint g a b = Inr (d, g')"
  shows "a \<le> d \<and> d \<le> b"
proof -
  from assms have ab: "a \<le> b" and d: "d = a + int (g 0 mod nat (b - a + 1))"
    by (auto simp: randint_def split: if_splits)
  have "g 0 mod nat (b - a + 1) < nat (b - a + 1)"
    using ab by (intro mod_less_divisor) simp
  then have "int (g 0 mod nat (b - a + 1)) < b - a + 1"
    using ab by linarith
  with d show ?thesis by simp
qed

text \<open>The model of the random source leaves every value of the range possible.\<close>

lemma randint_any:
  assumes "a \<le> v" and "v \<le> b"
  shows "\<exists>g g'. randint g a b = Inr (v, g')"
proof -
  have "nat (v - a) < nat (b - a + 1)"
    using assms by linarith
  then have "nat (v - a) mod nat (b - a + 1) = nat (v - a)"
    by simp
  then have "randint (\<lambda>n. nat (v - a)) a b = Inr (v, \<lambda>n. nat (v - a))"
    using assms by (simp add: randint_def)
  then show ?thesis by blast
qed

lemma random_visit_range:
  "random_visit l g = Inr (d, g') \<Longrightarrow> fst (visit_time l) \<le> d \<and> d \<le> snd (visit_time l)"
  unfolding random_visit_def by (rule randint_range)

lemma random_visit_total:
  "fst (visit_time l) \<le> snd (visit_time l) \<Longrightarrow> \<exists>d g'. random_visit l g = Inr (d, g')"
  by (simp add: random_visit_def randint_def)

lemma trace_waypoints_total:
  "\<forall>wp \<in> set wps. fst (visit_time wp) \<le> snd (visit_time wp)
     \<Longrightarrow> \<exists>res. trace_waypoints wps tc pts g = Inr res"
proof (induction wps arbitrary: tc pts g)
  case Nil
  then show ?case by simp
next
  case (Cons wp wps)
  from Cons.prems obtain d g' where d: "random_visit wp g = Inr (d, g')"
    using random_visit_total [of wp g] by auto
  from Cons.prems have "\<forall>w \<in> set wps. fst (visit_time w) \<le> snd (visit_time w)"
    by simp
  from Cons.IH [OF this, of "tc + d" "pts @ [(wp, tc)]" g'] d show ?case
    by simp
qed

lemma waypoint_arrivals_Cons:
  "map (\<lambda>i. ((wp # wps) ! i, tc + sum_list (take i (d # ds)))) [0..<Suc n]
     = (wp, tc) # map (\<lambda>i. (wps ! i, tc + d + sum_list (take i ds))) [0..<n]"
proof -
  have "[0..<Suc n] = 0 # map Suc [0..<n]"
    by (simp add: upt_conv_Cons map_Suc_upt del: upt_Suc)
  then show ?thesis by (simp add: o_def add.assoc del: upt_Suc)
qed

lemma trace_waypoints_result:
  "trace_waypoints wps tc pts g = Inr (tc', pts', g')
     \<Longrightarrow> \<exists>ds. length ds = length wps
           \<and> (\<forall>i < length wps. fst (visit_time (wps ! i)) \<le> ds ! i
                                  \<and> ds ! i \<le> snd (visit_time (wps ! i)))
           \<and> tc' = tc + sum_list ds
           \<and> pts' = pts @ map (\<lambda>i. (wps ! i, tc + sum_list (take i ds))) [0..<length wps]"
proof (induction wps arbitrary: tc pts g)
  case Nil
  then show ?case by simp
next
  case (Cons wp wps)
  from Cons.prems obtain d g1 where d: "random_visit wp g = Inr (d, g1)"
    and rest: "trace_waypoints wps (tc + d) (pts @ [(wp, tc)]) g1 = Inr (tc', pts', g')"
    by (auto split: sum.splits)
  from Cons.IH [OF rest] obtain ds where
    len: "length ds = length wps"
    and rng: "\<forall>i < length wps. fst (visit_time (wps ! i)) \<le> ds ! i
                                  \<and> ds ! i \<le> snd (visit_time (wps ! i))"
    and tc': "tc' = tc + d + sum_list ds"
    and pts': "pts' = (pts @ [(wp, tc)])
                 @ map (\<lambda>i. (wps ! i, tc + d + sum_list (take i ds))) [0..<length wps]"
    by blast
  show ?case
  proof (intro exI conjI)
    show "length (d # ds) = length (wp # wps)" using len by simp
    show "\<forall>i < length (wp # wps). fst (visit_time ((wp # wps) ! i)) \<le> (d # ds) ! i
                                  \<and> (d # ds) ! i \<le> snd (visit_time ((wp # wps) ! i))"
    proof (intro allI impI)
      fix i assume i: "i < length (wp # wps)"
      show "fst (visit_time ((wp # wps) ! i)) \<le> (d # ds) ! i
              \<and> (d # ds) ! i \<le> snd (visit_time ((wp # wps) ! i))"
      proof (cases i)
        case 0
        with random_visit_range [OF d] show ?thesis by simp
      next
        case (Suc j)
        with i rng show ?thesis by simp
      qed
    qed
    show "tc' = tc + sum_list (d # ds)" using tc' by simp
    show "pts' = pts @ map (\<lambda>i. ((wp # wps) ! i, tc + sum_list (take i (d # ds))))
                          [0..<length (wp # wps)]"
      unfolding pts' using waypoint_arrivals_Cons [of wp wps tc d ds "length wps"] by simp
  qed
qed

lemma trace_loop_iters:
  "trace_iters n routes end_time s = Some s'
     \<Longrightarrow> trace_loop routes end_time s = trace_loop routes end_time s'"
proof (induction n arbitrary: s)
  case 0
  then show ?case by simp
next
  case (Suc n)
  from Suc.prems obtain s1 where lt: "Tc s < end_time"
    and body: "trace_body routes s = Inr s1"
    and rest: "trace_iters n routes end_time s1 = Some s'"
    by (auto split: if_splits sum.splits)
  have "trace_loop routes end_time s = trace_loop routes end_time s1"
    using lt body by (subst trace_loop.simps) simp
  with Suc.IH [OF rest] show ?case by simp
qed

lemma trace_body_no_route:
  "choose_route routes (weekday (Tc s)) (Lc s) = Inl e \<Longrightarrow> trace_body routes s = Inl e"
  by (simp add: trace_body_def)

lemma choose_route_error:
  "choose_route routes wd st = Inl e
     \<Longrightarrow> e = NoAvailableRouteError (''Starting at location '' @ quote @ name st @ quote)"
  by (auto simp: choose_route_def split: option.splits)

lemma ex_HB_body:
  "trace_body [route_HB] \<lparr>Tc = 0, Lc = loc_H, points = [], source = \<lambda>n. 0\<rparr>
     = Inr \<lparr>Tc = 600, Lc = loc_B, points = [(loc_H, 0)], source = \<lambda>n. 0\<rparr>"
proof -
  have c: "choose_route [route_HB] (weekday 0) loc_H = Inr route_HB"
    by (simp add: choose_route_def route_HB_def weekday_def upto_rec1)
  have h: "random_visit loc_H (\<lambda>n. 0) = Inr (600, \<lambda>n. 0)"
    by (simp add: random_visit_def randint_def loc_H_def)
  have b: "random_visit loc_B (\<lambda>n. 0) = Inr (0, \<lambda>n. 0)"
    by (simp add: random_visit_def randint_def loc_B_def)
  have p: "generate_pings loc_H 0 600 = [0]"
    by (simp add: generate_pings_def generate_pings_loop.simps VISIT_PING_TIME_def)
  have q: "generate_pings loc_B 600 0 = []"
    by (simp add: generate_pings_def generate_pings_loop.simps)
  have f: "start_at route_HB = loc_H" "end_at route_HB = loc_B" "waypoints route_HB = []"
    by (simp_all add: route_HB_def)
  show ?thesis
    by (simp add: trace_body_def c h b p q f)
qed

lemma ex_HB_no_route:
  "choose_route [route_HB] (weekday 600) loc_B
     = Inl (NoAvailableRouteError (''Starting at location '' @ quote @ ''B'' @ quote))"
  by (simp add: choose_route_def route_HB_def loc_H_def loc_B_def)

text \<open>
  C1, as stated: when no eligible route exists at some iteration, \<^verbatim>\<open>trace\<close> returns the
  ping events accumulated so far, and the failure of the route selector never reaches
  the caller. It fails on the route \<open>H \<rightarrow> B\<close> with a dwell of 600 seconds at \<open>H\<close> and no
  route out of \<open>B\<close>: after one pass the loop holds the event \<open>(H, 0)\<close>, the selector
  fails at \<open>B\<close>, and \<^verbatim>\<open>trace\<close> raises \<^verbatim>\<open>NoAvailableRouteError\<close> instead of returning that
  event.
\<close>

theorem trace_no_route_counterexample:
  "trace_iters 1 [route_HB] 86400 \<lparr>Tc = 0, Lc = loc_H, points = [], source = \<lambda>n. 0\<rparr>
     = Some \<lparr>Tc = 600, Lc = loc_B, points = [(loc_H, 0)], source = \<lambda>n. 0\<rparr>
   \<and> choose_route [route_HB] (weekday 600) loc_B
     = Inl (NoAvailableRouteError (''Starting at location '' @ quote @ ''B'' @ quote))
   \<and> trace [route_HB] (PLoc loc_H) (PTime 0) None (\<lambda>n. 0)
     = Some (Inl (NoAvailableRouteError (''Starting at location '' @ quote @ ''B'' @ quote)))
   \<and> trace [route_HB] (PLoc loc_H) (PTime 0) None (\<lambda>n. 0) \<noteq> Some (Inr [(loc_H, 0)])"
proof -
  have it: "trace_iters 1 [route_HB] 86400 \<lparr>Tc = 0, Lc = loc_H, points = [], source = \<lambda>n. 0\<rparr>
     = Some \<lparr>Tc = 600, Lc = loc_B, points = [(loc_H, 0)], source = \<lambda>n. 0\<rparr>"
    by (simp add: ex_HB_body)
  have "trace [route_HB] (PLoc loc_H) (PTime 0) None (\<lambda>n. 0)
      = trace_loop [route_HB] 86400 \<lparr>Tc = 0, Lc = loc_H, points = [], source = \<lambda>n. 0\<rparr>"
    by (simp add: trace_def)
  also have "\<dots> = trace_loop [route_HB] 86400
        \<lparr>Tc = 600, Lc = loc_B, points = [(loc_H, 0)], source = \<lambda>n. 0\<rparr>"
    using it by (rule trace_loop_iters)
  also have "\<dots> = Some (Inl (NoAvailableRouteError (''Starting at location '' @ quote @ ''B'' @ quote)))"
    using ex_HB_no_route by (subst trace_loop.simps) (simp add: trace_body_def)
  finally have t: "trace [route_HB] (PLoc loc_H) (PTime 0) None (\<lambda>n. 0)
     = Some (Inl (NoAvailableRouteError (''Starting at location '' @ quote @ ''B'' @ quote)))" .
  from it ex_HB_no_route t show ?thesis by simp
qed

text \<open>
  C1, amended: \<^verbatim>\<open>trace\<close> has no handler around \<^verbatim>\<open>choose_route\<close>. When the loop reaches,
  after any number of passes, a state before \<^verbatim>\<open>end_time\<close> at which the route selector
  fails, \<^verbatim>\<open>trace\<close> raises the selector's \<^verbatim>\<open>NoAvailableRouteError\<close>, which carries the name
  of the current location; the events accumulated so far are not returned.
\<close>

theorem trace_no_route_propagates:
  "trace_iters n routes (case end_time of None \<Rightarrow> t + 86400 | Some e \<Rightarrow> e)
       \<lparr>Tc = t, Lc = l, points = [], source = g\<rparr> = Some s
   \<and> Tc s < (case end_time of None \<Rightarrow> t + 86400 | Some e \<Rightarrow> e)
   \<and> choose_route routes (weekday (Tc s)) (Lc s) = Inl err
   \<longrightarrow> trace routes (PLoc l) (PTime t) end_time g = Some (Inl err)
       \<and> err = NoAvailableRouteError (''Starting at location '' @ quote @ name (Lc s) @ quote)"
proof (intro impI, elim conjE)
  define E where "E = (case end_time of None \<Rightarrow> t + 86400 | Some e \<Rightarrow> e)"
  assume it: "trace_iters n routes (case end_time of None \<Rightarrow> t + 86400 | Some e \<Rightarrow> e)
       \<lparr>Tc = t, Lc = l, points = [], source = g\<rparr> = Some s"
    and lt: "Tc s < (case end_time of None \<Rightarrow> t + 86400 | Some e \<Rightarrow> e)"
    and no: "choose_route routes (weekday (Tc s)) (Lc s) = Inl err"
  have "trace routes (PLoc l) (PTime t) end_time g
      = trace_loop routes E \<lparr>Tc = t, Lc = l, points = [], source = g\<rparr>"
    by (simp add: trace_def E_def)
  also have "\<dots> = trace_loop routes E s"
    using it unfolding E_def [symmetric] by (rule trace_loop_iters)
  also have "\<dots> = Some (Inl err)"
    using lt trace_body_no_route [OF no] unfolding E_def [symmetric]
    by (subst trace_loop.simps) simp
  finally show "trace routes (PLoc l) (PTime t) end_time g = Some (Inl err)
       \<and> err = NoAvailableRouteError (''Starting at location '' @ quote @ name (Lc s) @ quote)"
    using choose_route_error [OF no] by simp
qed

theorem trace_no_route_propagates_witness:
  "trace_iters 1 [route_HB] 86400 \<lparr>Tc = 0, Lc = loc_H, points = [], source = \<lambda>n. 0\<rparr>
     = Some \<lparr>Tc = 600, Lc = loc_B, points = [(loc_H, 0)], source = \<lambda>n. 0\<rparr>
   \<and> (600::int) < 86400
   \<and> choose_route [route_HB] (weekday 600) loc_B
     = Inl (NoAvailableRouteError (''Starting at location '' @ quote @ ''B'' @ quote))
   \<and> trace [route_HB] (PLoc loc_H) (PTime 0) None (\<lambda>n. 0)
     = Some (Inl (NoAvailableRouteError (''Starting at location '' @ quote @ ''B'' @ quote)))"
proof -
  have it: "trace_iters 1 [route_HB] 86400 \<lparr>Tc = 0, Lc = loc_H, points = [], source = \<lambda>n. 0\<rparr>
     = Some \<lparr>Tc = 600, Lc = loc_B, points = [(loc_H, 0)], source = \<lambda>n. 0\<rparr>"
    by (simp add: ex_HB_body)
  note inst = trace_no_route_propagates [of 1 "[route_HB]" 0 None loc_H "\<lambda>n. 0"
      "\<lparr>Tc = 600, Lc = loc_B, points = [(loc_H, 0)], source = \<lambda>n. 0\<rparr>"
      "NoAvailableRouteError (''Starting at location '' @ quote @ ''B'' @ quote)"]
  from inst it ex_HB_no_route show ?thesis by simp
qed

lemma choose_route_loop_member:
  "choose_route_loop rs wd st mp ch = Some r
     \<Longrightarrow> ch = Some r \<or> (r \<in> set rs \<and> start_at r = st)"
  by (induction rs arbitrary: mp ch) (auto split: if_splits)

lemma choose_route_member:
  "choose_route routes wd st = Inr r \<Longrightarrow> r \<in> set routes \<and> start_at r = st"
  using choose_route_loop_member [of routes wd st 0 None r]
  by (auto simp: choose_route_def split: option.splits)

lemma trace_waypoints_advance:
  assumes "trace_waypoints wps tc pts g = Inr (tc', pts', g')"
    and "\<forall>wp \<in> set wps. 0 \<le> fst (visit_time wp)"
  shows "tc \<le> tc'"
  using assms
proof (induction wps arbitrary: tc pts g)
  case Nil
  then show ?case by simp
next
  case (Cons wp wps)
  from Cons.prems(1) obtain d g1 where d: "random_visit wp g = Inr (d, g1)"
    and rest: "trace_waypoints wps (tc + d) (pts @ [(wp, tc)]) g1 = Inr (tc', pts', g')"
    by (auto split: sum.splits)
  from random_visit_range [OF d] Cons.prems(2) have "0 \<le> d" by simp
  moreover from Cons.IH [OF rest] Cons.prems(2) have "tc + d \<le> tc'" by simp
  ultimately show ?case by simp
qed

lemma trace_body_advance:
  assumes pos: "reachable_positive routes l0"
    and wps: "waypoints_nonnegative routes l0"
    and reach: "reachable routes l0 (Lc s)"
    and body: "trace_body routes s = Inr s'"
  shows "Tc s < Tc s' \<and> reachable routes l0 (Lc s')"
proof -
  from body obtain r vt g1 tc2 pts2 g2 vt' g3 where
    r: "choose_route routes (weekday (Tc s)) (Lc s) = Inr r"
    and v1: "random_visit (start_at r) (source s) = Inr (vt, g1)"
    and w: "trace_waypoints (waypoints r) (Tc s + vt)
              (points s @ map (\<lambda>pingtime. (start_at r, pingtime))
                             (generate_pings (start_at r) (Tc s) vt)) g1 = Inr (tc2, pts2, g2)"
    and v2: "random_visit (end_at r) g2 = Inr (vt', g3)"
    and s': "Tc s' = tc2 + vt'" "Lc s' = end_at r"
    unfolding trace_body_def by (auto split: sum.splits prod.splits)
  from choose_route_member [OF r] have mem: "r \<in> set routes" and st: "start_at r = Lc s"
    by simp_all
  from reach st have rs: "reachable routes l0 (start_at r)" by simp
  from rs mem have re: "reachable routes l0 (end_at r)" by (rule reachable.step)
  have "0 < fst (visit_time (start_at r))" "0 < fst (visit_time (end_at r))"
    using pos rs re unfolding reachable_positive_def by blast+
  then have "0 < vt" "0 < vt'"
    using random_visit_range [OF v1] random_visit_range [OF v2] by linarith+
  moreover have "\<forall>wp \<in> set (waypoints r). 0 \<le> fst (visit_time wp)"
    using wps mem rs unfolding waypoints_nonnegative_def by blast
  with w have "Tc s + vt \<le> tc2" by (rule trace_waypoints_advance)
  ultimately have "Tc s < Tc s'" using s'(1) by linarith
  with re s'(2) show ?thesis by simp
qed

lemma trace_loop_returns:
  assumes pos: "reachable_positive routes l0"
    and wps: "waypoints_nonnegative routes l0"
  shows "reachable routes l0 (Lc s) \<Longrightarrow> \<exists>res. trace_loop routes end_time s = Some res"
proof (induction "nat (end_time - Tc s)" arbitrary: s rule: less_induct)
  case less
  show ?case
  proof (cases "Tc s < end_time")
    case False
    then show ?thesis by (subst trace_loop.simps) simp
  next
    case True
    show ?thesis
    proof (cases "trace_body routes s")
      case (Inl e)
      with True show ?thesis by (subst trace_loop.simps) simp
    next
      case (Inr s')
      from trace_body_advance [OF pos wps less.prems Inr]
      have adv: "Tc s < Tc s'" and reach: "reachable routes l0 (Lc s')"
        by simp_all
      from adv True have "nat (end_time - Tc s') < nat (end_time - Tc s)"
        by linarith
      from less.hyps [OF this reach] obtain res where "trace_loop routes end_time s' = Some res"
        by blast
      with True Inr show ?thesis by (subst trace_loop.simps) simp
    qed
  qed
qed

lemma trace_loop_never:
  assumes step: "\<And>s. I s \<Longrightarrow> Tc s < E \<and> (\<exists>s'. trace_body R s = Inr s' \<and> I s')"
    and init: "I s0"
  shows "trace_loop R E s0 = None"
proof (cases "trace_loop R E s0")
  case None
  then show ?thesis .
next
  case (Some y)
  have "\<not> (R = R \<and> E = E \<and> I s0)"
  proof (rule trace_loop.raw_induct [where P = "\<lambda>rs e s y. \<not> (rs = R \<and> e = E \<and> I s)"])
    fix f :: "route list \<Rightarrow> int \<Rightarrow> trace_state \<Rightarrow> (error + ping list) option"
    fix routes end_time s r
    assume IH: "\<And>rs e s' y'. f rs e s' = Some y' \<Longrightarrow> \<not> (rs = R \<and> e = E \<and> I s')"
      and eq: "(if Tc s < end_time
                then case trace_body routes s of
                       Inl e \<Rightarrow> Some (Inl e)
                     | Inr s' \<Rightarrow> f routes end_time s'
                else Some (Inr (points s))) = Some r"
    show "\<not> (routes = R \<and> end_time = E \<and> I s)"
    proof
      assume a: "routes = R \<and> end_time = E \<and> I s"
      with step [of s] obtain s' where "Tc s < E" "trace_body R s = Inr s'" "I s'"
        by blast
      with eq a have "f R E s' = Some r" by simp
      from IH [OF this] \<open>I s'\<close> show False by simp
    qed
  next
    show "trace_loop R E s0 = Some y" by (rule Some)
  qed
  with init show ?thesis by simp
qed

lemma reachable_self_loop:
  assumes "reachable [r] l0 l" and "end_at r = l0"
  shows "l = l0"
  using assms by (induction rule: reachable.induct) simp_all

lemma ex_HNH_body:
  assumes "Tc s = 86400" and "Lc s = loc_H" and "source s = (\<lambda>n. 0)"
  shows "\<exists>s'. trace_body [route_HNH] s = Inr s'
           \<and> Tc s' = 86400 \<and> Lc s' = loc_H \<and> source s' = (\<lambda>n. 0)"
proof -
  have c: "choose_route [route_HNH] (weekday 86400) loc_H = Inr route_HNH"
    by (simp add: choose_route_def route_HNH_def weekday_def upto_rec1)
  have h: "random_visit loc_H (\<lambda>n. 0) = Inr (600, \<lambda>n. 0)"
    by (simp add: random_visit_def randint_def loc_H_def)
  have n: "random_visit loc_N (\<lambda>n. 0) = Inr (- 1200, \<lambda>n. 0)"
    by (simp add: random_visit_def randint_def loc_N_def)
  have f: "start_at route_HNH = loc_H" "end_at route_HNH = loc_H"
    "waypoints route_HNH = [loc_N]"
    by (simp_all add: route_HNH_def)
  show ?thesis
    by (simp add: trace_body_def assms c h n f)
qed

lemma ex_AA_body:
  "trace_body [route_AA] \<lparr>Tc = 0, Lc = loc_A, points = [], source = \<lambda>n. 0\<rparr>
     = Inr \<lparr>Tc = 0, Lc = loc_A, points = [], source = \<lambda>n. 0\<rparr>"
proof -
  have c: "choose_route [route_AA] (weekday 0) loc_A = Inr route_AA"
    by (simp add: choose_route_def route_AA_def weekday_def upto_rec1)
  have a: "random_visit loc_A (\<lambda>n. 0) = Inr (0, \<lambda>n. 0)"
    by (simp add: random_visit_def randint_def loc_A_def)
  have q: "generate_pings loc_A 0 0 = []"
    by (simp add: generate_pings_def generate_pings_loop.simps)
  have f: "start_at route_AA = loc_A" "end_at route_AA = loc_A" "waypoints route_AA = []"
    by (simp_all add: route_AA_def)
  show ?thesis
    by (simp add: trace_body_def c a q f)
qed

text \<open>
  C6, as stated: the trace loop always terminates, in particular when every reachable
  location has a strictly positive dwell minimum. The first part fails on the route
  \<open>A \<rightarrow> A\<close> with dwell range \<open>(0, 0)\<close>: every pass leaves \<^verbatim>\<open>current_time\<close> at the start
  time, and the run never returns. The second part fails on the route \<open>H \<rightarrow> N \<rightarrow> H\<close>
  with a dwell of 600 seconds at \<open>H\<close>, the only reachable location, and a dwell of
  \<open>- 1200\<close> seconds at the waypoint \<open>N\<close>: every pass ends at the time at which it
  started, and the run never returns.
\<close>

theorem trace_zero_dwell_counterexample:
  "trace [route_AA] (PLoc loc_A) (PTime 0) None (\<lambda>n. 0) = None
   \<and> reachable_positive [route_HNH] loc_H
   \<and> trace [route_HNH] (PLoc loc_H) (PTime 86400) None (\<lambda>n. 0) = None"
proof -
  define s0 where "s0 = \<lparr>Tc = 0, Lc = loc_A, points = [], source = (\<lambda>n. 0) :: rng\<rparr>"
  have "trace_loop [route_AA] 86400 s0 = None"
  proof (rule trace_loop_never [where I = "\<lambda>s. s = s0"])
    fix s assume "s = s0"
    then show "Tc s < 86400 \<and> (\<exists>s'. trace_body [route_AA] s = Inr s' \<and> s' = s0)"
      using ex_AA_body by (simp add: s0_def)
  qed simp
  then have a: "trace [route_AA] (PLoc loc_A) (PTime 0) None (\<lambda>n. 0) = None"
    by (simp add: trace_def s0_def)
  have "end_at route_HNH = loc_H"
    by (simp add: route_HNH_def)
  from reachable_self_loop [OF _ this]
  have "reachable [route_HNH] loc_H l \<Longrightarrow> l = loc_H" for l .
  moreover have "0 < fst (visit_time loc_H)"
    by (simp add: loc_H_def)
  ultimately have b: "reachable_positive [route_HNH] loc_H"
    unfolding reachable_positive_def by blast
  have "trace_loop [route_HNH] 172800
      \<lparr>Tc = 86400, Lc = loc_H, points = [], source = \<lambda>n. 0\<rparr> = None"
  proof (rule trace_loop_never
      [where I = "\<lambda>s. Tc s = 86400 \<and> Lc s = loc_H \<and> source s = (\<lambda>n. 0)"])
    fix s :: trace_state
    assume "Tc s = 86400 \<and> Lc s = loc_H \<and> source s = (\<lambda>n. 0)"
    with ex_HNH_body [of s]
    show "Tc s < 172800 \<and> (\<exists>s'. trace_body [route_HNH] s = Inr s'
             \<and> Tc s' = 86400 \<and> Lc s' = loc_H \<and> source s' = (\<lambda>n. 0))"
      by simp
  qed simp
  then have c: "trace [route_HNH] (PLoc loc_H) (PTime 86400) None (\<lambda>n. 0) = None"
    by (simp add: trace_def)
  from a b c show ?thesis by simp
qed

text \<open>
  C6, amended: when every location reachable from the start location has a strictly
  positive dwell minimum and no waypoint of a route starting at a reachable location has
  a negative dwell minimum, \<^verbatim>\<open>trace\<close> terminates (it returns its list or raises) for every
  start location, start time and end time; each pass that completes increases
  \<^verbatim>\<open>current_time\<close> strictly.
\<close>

theorem trace_terminates:
  "reachable_positive routes l0 \<and> waypoints_nonnegative routes l0 \<longrightarrow>
     (\<exists>res. trace routes (PLoc l0) (PTime t) end_time g = Some res)"
proof (intro impI, elim conjE)
  assume pos: "reachable_positive routes l0" and wps: "waypoints_nonnegative routes l0"
  have "reachable routes l0 (Lc \<lparr>Tc = t, Lc = l0, points = [], source = g\<rparr>)"
    by (simp add: reachable.start)
  from trace_loop_returns [OF pos wps this] show
    "\<exists>res. trace routes (PLoc l0) (PTime t) end_time g = Some res"
    by (simp add: trace_def)
qed

theorem trace_terminates_witness:
  "reachable_positive [route_HWH] loc_H \<and> waypoints_nonnegative [route_HWH] loc_H
   \<and> fst (visit_time loc_W) = 0
   \<and> (\<exists>res. trace [route_HWH] (PLoc loc_H) (PTime 0) (Some 1000) (\<lambda>n. 0) = Some res)"
proof -
  have "end_at route_HWH = loc_H"
    by (simp add: route_HWH_def)
  from reachable_self_loop [OF _ this]
  have "reachable [route_HWH] loc_H l \<Longrightarrow> l = loc_H" for l .
  moreover have "0 < fst (visit_time loc_H)"
    by (simp add: loc_H_def)
  ultimately have pos: "reachable_positive [route_HWH] loc_H"
    unfolding reachable_positive_def by blast
  have w: "fst (visit_time loc_W) = 0"
    by (simp add: loc_W_def)
  then have wps: "waypoints_nonnegative [route_HWH] loc_H"
    by (simp add: waypoints_nonnegative_def route_HWH_def)
  from trace_terminates [of "[route_HWH]" loc_H 0 "Some 1000" "\<lambda>n. 0"] pos wps w
  show ?thesis by blast
qed

lemma trace_inv_waypoint:
  assumes "trace_inv routes pts tc" and "tc \<le> tc'"
    and "tc = tc' \<longrightarrow> zero_dwell_waypoint routes l"
  shows "trace_inv routes (pts @ [(l, tc)]) tc'"
proof -
  from assms(1) have s: "successively (tie_ok routes) pts"
    and b: "pts \<noteq> [] \<longrightarrow> tie_ok routes (last pts) (l, tc)"
    by (simp_all add: trace_inv_def tie_ok_def)
  have "successively (tie_ok routes) (pts @ [(l, tc)])"
    using s b unfolding successively_append_iff by auto
  with assms(2,3) show ?thesis by (simp add: trace_inv_def)
qed

lemma trace_inv_increasing:
  assumes inv: "trace_inv routes pts tc"
    and ne: "ts \<noteq> []" and hd: "hd ts = tc"
    and inc: "sorted_wrt (<) ts" and bound: "\<forall>t \<in> set ts. t < e"
  shows "trace_inv routes (pts @ map (Pair st) ts) e"
proof -
  from inv have s: "successively (tie_ok routes) pts"
    and b: "pts \<noteq> [] \<longrightarrow> tie_ok routes (last pts) (st, tc)"
    by (simp_all add: trace_inv_def tie_ok_def)
  from inc have "successively (<) ts"
    by (rule successively_if_sorted_wrt)
  then have "successively (\<lambda>x y. tie_ok routes (st, x) (st, y)) ts"
    by (rule successively_mono) (simp add: tie_ok_def)
  then have m: "successively (tie_ok routes) (map (Pair st) ts)"
    by (simp add: successively_map)
  have h: "hd (map (Pair st) ts) = (st, tc)"
    using ne hd by (simp add: hd_map)
  have "successively (tie_ok routes) (pts @ map (Pair st) ts)"
    using s m b h unfolding successively_append_iff by auto
  moreover have "last (pts @ map (Pair st) ts) = (st, last ts)"
    using ne by (simp add: last_map)
  moreover have "last ts < e"
    using ne bound by simp
  ultimately show ?thesis by (simp add: trace_inv_def)
qed

lemma generate_pings_increasing:
  assumes "0 < d"
  shows "generate_pings loc T d \<noteq> [] \<and> hd (generate_pings loc T d) = T
         \<and> sorted_wrt (<) (generate_pings loc T d)
         \<and> (\<forall>t \<in> set (generate_pings loc T d). t < T + d)"
proof -
  define q where "q = (d + 599) div 600"
  have eq: "generate_pings loc T d = map (\<lambda>k. T + VISIT_PING_TIME * int k) [0..<nat q]"
    unfolding generate_pings_def q_def by (simp add: generate_pings_loop_eq)
  have qpos: "0 < q"
    using div600_bounds(2) [OF q_def] assms by linarith
  then have ne: "[0..<nat q] \<noteq> []" by simp
  have hd: "hd (generate_pings loc T d) = T"
    unfolding eq using ne by (simp add: hd_map)
  have "sorted_wrt (\<lambda>x y. T + VISIT_PING_TIME * int x < T + VISIT_PING_TIME * int y) [0..<nat q]"
    by (rule sorted_wrt_mono_rel [OF _ sorted_wrt_upt]) (simp add: VISIT_PING_TIME_def)
  then have inc: "sorted_wrt (<) (generate_pings loc T d)"
    unfolding eq by (simp add: sorted_wrt_map)
  have bound: "t < T + d" if "t \<in> set (generate_pings loc T d)" for t
  proof -
    from that obtain k where k: "k < nat q" and t: "t = T + VISIT_PING_TIME * int k"
      unfolding eq by auto
    from k have "int k + 1 \<le> q" by simp
    then have "600 * int k + 600 \<le> 600 * q" by simp
    with div600_bounds(1) [OF q_def] have "600 * int k < d" by linarith
    then show ?thesis by (simp add: t VISIT_PING_TIME_def)
  qed
  from ne hd inc bound show ?thesis by (simp add: eq)
qed

lemma generate_pings_zero: "generate_pings loc T 0 = []"
  by (simp add: generate_pings_def generate_pings_loop.simps)

lemma trace_inv_pings:
  assumes "trace_inv routes pts tc" and "0 \<le> vt"
  shows "trace_inv routes (pts @ map (Pair st) (generate_pings st tc vt)) (tc + vt)"
proof (cases "vt = 0")
  case True
  with assms(1) show ?thesis by (simp add: generate_pings_zero)
next
  case False
  with assms(2) have "0 < vt" by simp
  from generate_pings_increasing [OF this, of st tc] assms(1) show ?thesis
    by (intro trace_inv_increasing) simp_all
qed


lemma trace_waypoints_inv:
  assumes "trace_waypoints wps tc pts g = Inr (tc', pts', g')"
    and "trace_inv routes pts tc"
    and "\<forall>wp \<in> set wps. (\<exists>r \<in> set routes. wp \<in> set (waypoints r)) \<and> 0 \<le> fst (visit_time wp)"
  shows "trace_inv routes pts' tc'"
  using assms
proof (induction wps arbitrary: tc pts g)
  case Nil
  then show ?case by simp
next
  case (Cons wp wps)
  from Cons.prems(1) obtain d g1 where d: "random_visit wp g = Inr (d, g1)"
    and rest: "trace_waypoints wps (tc + d) (pts @ [(wp, tc)]) g1 = Inr (tc', pts', g')"
    by (auto split: sum.splits)
  from Cons.prems(3) have wp: "\<exists>r \<in> set routes. wp \<in> set (waypoints r)"
    and lo: "0 \<le> fst (visit_time wp)"
    by simp_all
  from random_visit_range [OF d] lo have d0: "0 \<le> d"
    and z: "d = 0 \<longrightarrow> fst (visit_time wp) = 0"
    by auto
  have "trace_inv routes (pts @ [(wp, tc)]) (tc + d)"
    using Cons.prems(2) d0 z wp
    by (intro trace_inv_waypoint) (auto simp: zero_dwell_waypoint_def)
  moreover from Cons.prems(3)
  have "\<forall>w \<in> set wps. (\<exists>r \<in> set routes. w \<in> set (waypoints r)) \<and> 0 \<le> fst (visit_time w)"
    by simp
  ultimately show ?case using Cons.IH [OF rest] by blast
qed

lemma trace_body_inv:
  assumes ok: "dwell_ranges_ok routes"
    and inv: "trace_inv routes (points s) (Tc s)"
    and body: "trace_body routes s = Inr s'"
  shows "trace_inv routes (points s') (Tc s')"
proof -
  from body obtain r vt g1 tc2 pts2 g2 vt' g3 where
    r: "choose_route routes (weekday (Tc s)) (Lc s) = Inr r"
    and v1: "random_visit (start_at r) (source s) = Inr (vt, g1)"
    and w: "trace_waypoints (waypoints r) (Tc s + vt)
              (points s @ map (Pair (start_at r)) (generate_pings (start_at r) (Tc s) vt)) g1
            = Inr (tc2, pts2, g2)"
    and v2: "random_visit (end_at r) g2 = Inr (vt', g3)"
    and tc': "Tc s' = tc2 + vt'"
    and pts': "points s' = pts2 @ map (Pair (end_at r)) (generate_pings (end_at r) tc2 vt')"
    unfolding trace_body_def by (auto split: sum.splits prod.splits)
  from choose_route_member [OF r] have mem: "r \<in> set routes"
    by simp
  with ok have lo: "0 \<le> fst (visit_time l)" if "on_route r l" for l
    using that unfolding dwell_ranges_ok_def by blast
  have "0 \<le> vt"
    using random_visit_range [OF v1] lo [of "start_at r"] by (simp add: on_route_def)
  with inv have a: "trace_inv routes
      (points s @ map (Pair (start_at r)) (generate_pings (start_at r) (Tc s) vt)) (Tc s + vt)"
    by (rule trace_inv_pings)
  have "\<forall>wp \<in> set (waypoints r).
          (\<exists>r \<in> set routes. wp \<in> set (waypoints r)) \<and> 0 \<le> fst (visit_time wp)"
    using mem lo by (auto simp: on_route_def)
  with w a have b: "trace_inv routes pts2 tc2"
    by (rule trace_waypoints_inv)
  have "0 \<le> vt'"
    using random_visit_range [OF v2] lo [of "end_at r"] by (simp add: on_route_def)
  with b show ?thesis
    unfolding tc' pts' by (rule trace_inv_pings)
qed

lemma trace_loop_inv:
  assumes run: "trace_loop routes end_time s = Some (Inr pts)"
    and ok: "dwell_ranges_ok routes"
    and inv: "trace_inv routes (points s) (Tc s)"
  shows "successively (tie_ok routes) pts"
proof -
  have "dwell_ranges_ok routes \<longrightarrow> trace_inv routes (points s) (Tc s)
          \<longrightarrow> (\<forall>ps. (Inr pts :: error + ping list) = Inr ps
                  \<longrightarrow> successively (tie_ok routes) ps)"
  proof (rule trace_loop.raw_induct
      [where P = "\<lambda>rs e s y. dwell_ranges_ok rs \<longrightarrow> trace_inv rs (points s) (Tc s)
                    \<longrightarrow> (\<forall>ps. y = Inr ps \<longrightarrow> successively (tie_ok rs) ps)"])
    fix f :: "route list \<Rightarrow> int \<Rightarrow> trace_state \<Rightarrow> (error + ping list) option"
    fix rs e st y
    assume IH: "\<And>rs' e' s' y'. f rs' e' s' = Some y'
                  \<Longrightarrow> dwell_ranges_ok rs' \<longrightarrow> trace_inv rs' (points s') (Tc s')
                        \<longrightarrow> (\<forall>ps. y' = Inr ps \<longrightarrow> successively (tie_ok rs') ps)"
      and eq: "(if Tc st < e
                then case trace_body rs st of
                       Inl err \<Rightarrow> Some (Inl err)
                     | Inr s' \<Rightarrow> f rs e s'
                else Some (Inr (points st))) = Some y"
    show "dwell_ranges_ok rs \<longrightarrow> trace_inv rs (points st) (Tc st)
            \<longrightarrow> (\<forall>ps. y = Inr ps \<longrightarrow> successively (tie_ok rs) ps)"
    proof (intro impI allI)
      fix ps
      assume ok': "dwell_ranges_ok rs" and inv': "trace_inv rs (points st) (Tc st)"
        and y: "y = Inr ps"
      show "successively (tie_ok rs) ps"
      proof (cases "Tc st < e")
        case False
        with eq y have "ps = points st" by simp
        with inv' show ?thesis by (simp add: trace_inv_def)
      next
        case True
        show ?thesis
        proof (cases "trace_body rs st")
          case (Inl err)
          with eq True y show ?thesis by simp
        next
          case (Inr s')
          with eq True have "f rs e s' = Some y" by simp
          from IH [OF this] ok' trace_body_inv [OF ok' inv' Inr] y show ?thesis
            by blast
        qed
      qed
    qed
  next
    show "trace_loop routes end_time s = Some (Inr pts)" by (rule run)
  qed
  with ok inv show ?thesis by blast
qed

lemma trace_inv_empty: "trace_inv routes [] t"
  by (simp add: trace_inv_def)

lemma trace_returns_loop:
  assumes "trace routes start_v time_v end_time g = Some (Inr pts)"
  shows "\<exists>l t e. trace_loop routes e \<lparr>Tc = t, Lc = l, points = [], source = g\<rparr> = Some (Inr pts)"
proof -
  from assms obtain l where l: "start_v = PLoc l"
    by (cases start_v) (simp_all add: trace_def)
  from assms obtain t where t: "time_v = PTime t"
    unfolding l by (cases time_v) (simp_all add: trace_def)
  from assms show ?thesis
    unfolding l t by (auto simp: trace_def)
qed

lemma ex_AWH_body:
  "trace_body [route_AWH] \<lparr>Tc = 0, Lc = loc_A, points = [], source = \<lambda>n. 0\<rparr>
     = Inr \<lparr>Tc = 600, Lc = loc_H, points = [(loc_W, 0), (loc_H, 0)], source = \<lambda>n. 0\<rparr>"
proof -
  have c: "choose_route [route_AWH] (weekday 0) loc_A = Inr route_AWH"
    by (simp add: choose_route_def route_AWH_def weekday_def upto_rec1)
  have a: "random_visit loc_A (\<lambda>n. 0) = Inr (0, \<lambda>n. 0)"
    by (simp add: random_visit_def randint_def loc_A_def)
  have w: "random_visit loc_W (\<lambda>n. 0) = Inr (0, \<lambda>n. 0)"
    by (simp add: random_visit_def randint_def loc_W_def)
  have h: "random_visit loc_H (\<lambda>n. 0) = Inr (600, \<lambda>n. 0)"
    by (simp add: random_visit_def randint_def loc_H_def)
  have p: "generate_pings loc_H 0 600 = [0]"
    by (simp add: generate_pings_def generate_pings_loop.simps VISIT_PING_TIME_def)
  have q: "generate_pings loc_A 0 0 = []"
    by (rule generate_pings_zero)
  have f: "start_at route_AWH = loc_A" "end_at route_AWH = loc_H"
    "waypoints route_AWH = [loc_W]"
    by (simp_all add: route_AWH_def)
  show ?thesis
    by (simp add: trace_body_def c a w h p q f)
qed

lemma ex_AWH_trace:
  "trace [route_AWH] (PLoc loc_A) (PTime 0) (Some 600) (\<lambda>n. 0)
     = Some (Inr [(loc_W, 0), (loc_H, 0)])"
proof -
  have "trace [route_AWH] (PLoc loc_A) (PTime 0) (Some 600) (\<lambda>n. 0)
      = trace_loop [route_AWH] 600 \<lparr>Tc = 0, Lc = loc_A, points = [], source = \<lambda>n. 0\<rparr>"
    by (simp add: trace_def)
  also have "\<dots> = trace_loop [route_AWH] 600
      \<lparr>Tc = 600, Lc = loc_H, points = [(loc_W, 0), (loc_H, 0)], source = \<lambda>n. 0\<rparr>"
    by (subst trace_loop.simps) (simp add: ex_AWH_body)
  also have "\<dots> = Some (Inr [(loc_W, 0), (loc_H, 0)])"
    by (subst trace_loop.simps) simp
  finally show ?thesis .
qed

lemma ex_AWH_ranges: "dwell_ranges_ok [route_AWH]"
proof -
  have "l = loc_A \<or> l = loc_W \<or> l = loc_H" if "on_route route_AWH l" for l
    using that by (auto simp: on_route_def route_AWH_def)
  moreover have "0 \<le> fst (visit_time loc_A) \<and> fst (visit_time loc_A) \<le> snd (visit_time loc_A)"
    by (simp add: loc_A_def)
  moreover have "0 \<le> fst (visit_time loc_W) \<and> fst (visit_time loc_W) \<le> snd (visit_time loc_W)"
    by (simp add: loc_W_def)
  moreover have "0 \<le> fst (visit_time loc_H) \<and> fst (visit_time loc_H) \<le> snd (visit_time loc_H)"
    by (simp add: loc_H_def)
  ultimately show ?thesis
    unfolding dwell_ranges_ok_def by auto
qed

text \<open>
  C5, as stated: over locations whose ranges are non-negative with minimum \<open>\<le>\<close>
  maximum, the returned timestamps do not decrease, and two adjacent events have equal
  timestamps only when they are consecutive zero-dwell single-instant (waypoint)
  entries. The second part fails on the route \<open>A \<rightarrow> W \<rightarrow> H\<close> with zero dwell at \<open>A\<close> and at
  the waypoint \<open>W\<close> and a dwell of 600 seconds at \<open>H\<close>: the trace is \<open>(W, 0), (H, 0)\<close>,
  a tie whose second event is the first periodic ping of the 600-second stay at \<open>H\<close>,
  not a zero-dwell waypoint entry.
\<close>

theorem trace_tie_counterexample:
  "dwell_ranges_ok [route_AWH]
   \<and> trace [route_AWH] (PLoc loc_A) (PTime 0) (Some 600) (\<lambda>n. 0)
       = Some (Inr [(loc_W, 0), (loc_H, 0)])
   \<and> visit_time loc_H = (600, 600)
   \<and> \<not> zero_dwell_waypoint [route_AWH] loc_H"
proof -
  have "visit_time loc_H = (600, 600)"
    by (simp add: loc_H_def)
  then have "\<not> zero_dwell_waypoint [route_AWH] loc_H"
    by (simp add: zero_dwell_waypoint_def)
  with ex_AWH_ranges ex_AWH_trace \<open>visit_time loc_H = (600, 600)\<close> show ?thesis
    by simp
qed

text \<open>
  C5, amended: over locations whose ranges are non-negative with minimum \<open>\<le>\<close>
  maximum, the returned timestamps do not decrease, and two adjacent events have equal
  timestamps only when the earlier of the two is at a waypoint whose dwell is zero (the
  later one may be a waypoint entry or a ping of a start or end location).
\<close>

theorem trace_timestamps_ordered:
  "dwell_ranges_ok routes \<and> trace routes start_v time_v end_time g = Some (Inr pts)
   \<longrightarrow> sorted (map snd pts)
       \<and> (\<forall>i. Suc i < length pts \<and> snd (pts ! i) = snd (pts ! Suc i)
                \<longrightarrow> zero_dwell_waypoint routes (fst (pts ! i)))"
proof (intro impI, elim conjE)
  assume ok: "dwell_ranges_ok routes"
    and run: "trace routes start_v time_v end_time g = Some (Inr pts)"
  from trace_returns_loop [OF run] obtain l t e where
    "trace_loop routes e \<lparr>Tc = t, Lc = l, points = [], source = g\<rparr> = Some (Inr pts)"
    by blast
  from trace_loop_inv [OF this ok] have s: "successively (tie_ok routes) pts"
    by (simp add: trace_inv_empty)
  then have "successively (\<lambda>p q. snd p \<le> snd q) pts"
    by (rule successively_mono) (simp add: tie_ok_def)
  then have "successively (\<le>) (map snd pts)"
    by (simp add: successively_map)
  then have sorted: "sorted (map snd pts)"
    by (simp add: successively_conv_sorted_wrt)
  have ties: "zero_dwell_waypoint routes (fst (pts ! i))"
    if "Suc i < length pts \<and> snd (pts ! i) = snd (pts ! Suc i)" for i
    using successively_nth [OF s, of i] that by (simp add: tie_ok_def)
  from sorted ties show "sorted (map snd pts)
       \<and> (\<forall>i. Suc i < length pts \<and> snd (pts ! i) = snd (pts ! Suc i)
                \<longrightarrow> zero_dwell_waypoint routes (fst (pts ! i)))"
    by blast
qed

theorem trace_timestamps_ordered_witness:
  "dwell_ranges_ok [route_AWH]
   \<and> trace [route_AWH] (PLoc loc_A) (PTime 0) (Some 600) (\<lambda>n. 0)
       = Some (Inr [(loc_W, 0), (loc_H, 0)])
   \<and> sorted (map snd [(loc_W, 0 :: int), (loc_H, 0)])
   \<and> Suc 0 < length [(loc_W, 0 :: int), (loc_H, 0)]
   \<and> snd ([(loc_W, 0 :: int), (loc_H, 0)] ! 0) = snd ([(loc_W, 0 :: int), (loc_H, 0)] ! Suc 0)
   \<and> zero_dwell_waypoint [route_AWH] (fst ([(loc_W, 0 :: int), (loc_H, 0)] ! 0))"
proof -
  note inst = trace_timestamps_ordered [of "[route_AWH]" "PLoc loc_A" "PTime 0" "Some 600"
      "\<lambda>n. 0" "[(loc_W, 0), (loc_H, 0)]"]
  from inst ex_AWH_ranges ex_AWH_trace
  have "sorted (map snd [(loc_W, 0 :: int), (loc_H, 0)])"
    and "\<forall>i. Suc i < length [(loc_W, 0 :: int), (loc_H, 0)]
              \<and> snd ([(loc_W, 0 :: int), (loc_H, 0)] ! i) = snd ([(loc_W, 0 :: int), (loc_H, 0)] ! Suc i)
          \<longrightarrow> zero_dwell_waypoint [route_AWH] (fst ([(loc_W, 0 :: int), (loc_H, 0)] ! i))"
    by blast+
  from this(1) this(2) [rule_format, of 0] ex_AWH_ranges ex_AWH_trace show ?thesis
    by simp
qed

lemma trace_body_events:
  assumes "trace_body routes s = Inr s'"
  shows "\<exists>r vt ds vt'. choose_route routes (weekday (Tc s)) (Lc s) = Inr r
           \<and> length ds = length (waypoints r)
           \<and> (\<forall>i < length (waypoints r). fst (visit_time (waypoints r ! i)) \<le> ds ! i
                                  \<and> ds ! i \<le> snd (visit_time (waypoints r ! i)))
           \<and> points s' = points s
                @ map (Pair (start_at r)) (generate_pings (start_at r) (Tc s) vt)
                @ map (\<lambda>i. (waypoints r ! i, Tc s + vt + sum_list (take i ds)))
                      [0..<length (waypoints r)]
                @ map (Pair (end_at r)) (generate_pings (end_at r) (Tc s + vt + sum_list ds) vt')
           \<and> Tc s' = Tc s + vt + sum_list ds + vt'"
proof -
  from assms obtain r vt g1 tc2 pts2 g2 vt' g3 where
    r: "choose_route routes (weekday (Tc s)) (Lc s) = Inr r"
    and w: "trace_waypoints (waypoints r) (Tc s + vt)
              (points s @ map (Pair (start_at r)) (generate_pings (start_at r) (Tc s) vt)) g1
            = Inr (tc2, pts2, g2)"
    and tc': "Tc s' = tc2 + vt'"
    and pts': "points s' = pts2 @ map (Pair (end_at r)) (generate_pings (end_at r) tc2 vt')"
    unfolding trace_body_def by (auto split: sum.splits prod.splits)
  from trace_waypoints_result [OF w] obtain ds where
    len: "length ds = length (waypoints r)"
    and rng: "\<forall>i < length (waypoints r). fst (visit_time (waypoints r ! i)) \<le> ds ! i
                                  \<and> ds ! i \<le> snd (visit_time (waypoints r ! i))"
    and tc2: "tc2 = Tc s + vt + sum_list ds"
    and pts2: "pts2 = (points s @ map (Pair (start_at r)) (generate_pings (start_at r) (Tc s) vt))
                 @ map (\<lambda>i. (waypoints r ! i, Tc s + vt + sum_list (take i ds)))
                       [0..<length (waypoints r)]"
    by blast
  show ?thesis
  proof (intro exI conjI)
    show "choose_route routes (weekday (Tc s)) (Lc s) = Inr r" by (rule r)
    show "length ds = length (waypoints r)" by (rule len)
    show "\<forall>i < length (waypoints r). fst (visit_time (waypoints r ! i)) \<le> ds ! i
                                  \<and> ds ! i \<le> snd (visit_time (waypoints r ! i))"
      by (rule rng)
    show "points s' = points s
                @ map (Pair (start_at r)) (generate_pings (start_at r) (Tc s) vt)
                @ map (\<lambda>i. (waypoints r ! i, Tc s + vt + sum_list (take i ds)))
                      [0..<length (waypoints r)]
                @ map (Pair (end_at r)) (generate_pings (end_at r) (Tc s + vt + sum_list ds) vt')"
      unfolding pts' pts2 tc2 by simp
    show "Tc s' = Tc s + vt + sum_list ds + vt'"
      unfolding tc' tc2 by simp
  qed
qed

lemma trace_body_total:
  assumes r: "choose_route routes (weekday (Tc s)) (Lc s) = Inr r"
    and ok: "\<forall>l. on_route r l \<longrightarrow> fst (visit_time l) \<le> snd (visit_time l)"
  shows "\<exists>s'. trace_body routes s = Inr s'"
proof -
  from ok have a: "fst (visit_time (start_at r)) \<le> snd (visit_time (start_at r))"
    and b: "fst (visit_time (end_at r)) \<le> snd (visit_time (end_at r))"
    and c: "\<forall>wp \<in> set (waypoints r). fst (visit_time wp) \<le> snd (visit_time wp)"
    by (simp_all add: on_route_def)
  from random_visit_total [OF a] obtain vt g1 where
    v1: "random_visit (start_at r) (source s) = Inr (vt, g1)"
    by blast
  from trace_waypoints_total [OF c] obtain tc2 pts2 g2 where
    w: "trace_waypoints (waypoints r) (Tc s + vt)
          (points s @ map (\<lambda>pingtime. (start_at r, pingtime))
                         (generate_pings (start_at r) (Tc s) vt)) g1 = Inr (tc2, pts2, g2)"
    by (metis prod_cases3)
  from random_visit_total [OF b] obtain vt' g3 where
    v2: "random_visit (end_at r) g2 = Inr (vt', g3)"
    by blast
  show ?thesis
    by (simp add: trace_body_def r v1 w v2)
qed

lemma trace_body_extends:
  "trace_body routes s = Inr s' \<Longrightarrow> \<exists>ext. points s' = points s @ ext"
  using trace_body_events [of routes s s'] by blast

lemma trace_loop_extends:
  assumes run: "trace_loop routes end_time s = Some (Inr pts)"
  shows "\<exists>ext. pts = points s @ ext"
proof -
  have "\<forall>ps. (Inr pts :: error + ping list) = Inr ps \<longrightarrow> (\<exists>ext. ps = points s @ ext)"
  proof (rule trace_loop.raw_induct
      [where P = "\<lambda>rs e s y. \<forall>ps. y = Inr ps \<longrightarrow> (\<exists>ext. ps = points s @ ext)"])
    fix f :: "route list \<Rightarrow> int \<Rightarrow> trace_state \<Rightarrow> (error + ping list) option"
    fix rs e st y
    assume IH: "\<And>rs' e' s' y'. f rs' e' s' = Some y'
                  \<Longrightarrow> \<forall>ps. y' = Inr ps \<longrightarrow> (\<exists>ext. ps = points s' @ ext)"
      and eq: "(if Tc st < e
                then case trace_body rs st of
                       Inl err \<Rightarrow> Some (Inl err)
                     | Inr s' \<Rightarrow> f rs e s'
                else Some (Inr (points st))) = Some y"
    show "\<forall>ps. y = Inr ps \<longrightarrow> (\<exists>ext. ps = points st @ ext)"
    proof (intro allI impI)
      fix ps assume y: "y = Inr ps"
      show "\<exists>ext. ps = points st @ ext"
      proof (cases "Tc st < e")
        case False
        with eq y show ?thesis by simp
      next
        case True
        show ?thesis
        proof (cases "trace_body rs st")
          case (Inl err)
          with eq True y show ?thesis by simp
        next
          case (Inr s')
          with eq True have "f rs e s' = Some y" by simp
          from IH [OF this] y obtain ext where "ps = points s' @ ext" by blast
          moreover from trace_body_extends [OF Inr] obtain ext' where
            "points s' = points st @ ext'" by blast
          ultimately have "ps = points st @ (ext' @ ext)" by simp
          then show ?thesis by blast
        qed
      qed
    qed
  next
    show "trace_loop routes end_time s = Some (Inr pts)" by (rule run)
  qed
  then show ?thesis by blast
qed

lemma ex_AHWB_body:
  "trace_body [route_AHWB] \<lparr>Tc = 0, Lc = loc_A, points = [], source = \<lambda>n. 0\<rparr>
     = Inr \<lparr>Tc = 600, Lc = loc_B, points = [(loc_H, 0), (loc_W, 600)], source = \<lambda>n. 0\<rparr>"
proof -
  have c: "choose_route [route_AHWB] (weekday 0) loc_A = Inr route_AHWB"
    by (simp add: choose_route_def route_AHWB_def weekday_def upto_rec1)
  have a: "random_visit loc_A (\<lambda>n. 0) = Inr (0, \<lambda>n. 0)"
    by (simp add: random_visit_def randint_def loc_A_def)
  have b: "random_visit loc_B (\<lambda>n. 0) = Inr (0, \<lambda>n. 0)"
    by (simp add: random_visit_def randint_def loc_B_def)
  have w: "random_visit loc_W (\<lambda>n. 0) = Inr (0, \<lambda>n. 0)"
    by (simp add: random_visit_def randint_def loc_W_def)
  have h: "random_visit loc_H (\<lambda>n. 0) = Inr (600, \<lambda>n. 0)"
    by (simp add: random_visit_def randint_def loc_H_def)
  have f: "start_at route_AHWB = loc_A" "end_at route_AHWB = loc_B"
    "waypoints route_AHWB = [loc_H, loc_W]"
    by (simp_all add: route_AHWB_def)
  show ?thesis
    by (simp add: trace_body_def c a b w h f generate_pings_zero)
qed

lemma ex_AHWB_trace:
  "trace [route_AHWB] (PLoc loc_A) (PTime 0) (Some 600) (\<lambda>n. 0)
     = Some (Inr [(loc_H, 0), (loc_W, 600)])"
proof -
  have "trace [route_AHWB] (PLoc loc_A) (PTime 0) (Some 600) (\<lambda>n. 0)
      = trace_loop [route_AHWB] 600 \<lparr>Tc = 0, Lc = loc_A, points = [], source = \<lambda>n. 0\<rparr>"
    by (simp add: trace_def)
  also have "\<dots> = trace_loop [route_AHWB] 600
      \<lparr>Tc = 600, Lc = loc_B, points = [(loc_H, 0), (loc_W, 600)], source = \<lambda>n. 0\<rparr>"
    by (subst trace_loop.simps) (simp add: ex_AHWB_body)
  also have "\<dots> = Some (Inr [(loc_H, 0), (loc_W, 600)])"
    by (subst trace_loop.simps) simp
  finally show ?thesis .
qed

text \<open>
  C4. In every pass of the loop of \<^verbatim>\<open>trace\<close> that completes, with chosen route \<open>r\<close>, the
  events appended are the periodic pings of the start location, then exactly one event
  for every waypoint of \<open>r\<close>, in route order and whatever the waypoint's dwell, then the
  periodic pings of the end location. The event of the \<open>i\<close>-th waypoint carries the
  \<^verbatim>\<open>current_time\<close> at which the waypoint is reached: the time at the start of the pass
  plus the dwell at the start location plus the dwells \<open>ds\<close> of the waypoints before it;
  the waypoint's own dwell is added only afterwards. The pass completes whenever a route
  is chosen and every location on it has a range with minimum \<open>\<le>\<close> maximum, and the
  events of every pass the loop makes are part of the list that \<^verbatim>\<open>trace\<close> returns.
\<close>

theorem trace_waypoint_events:
  "(trace_body routes s = Inr s' \<longrightarrow>
      (\<exists>r vt ds vt'. choose_route routes (weekday (Tc s)) (Lc s) = Inr r
           \<and> length ds = length (waypoints r)
           \<and> (\<forall>i < length (waypoints r). fst (visit_time (waypoints r ! i)) \<le> ds ! i
                                  \<and> ds ! i \<le> snd (visit_time (waypoints r ! i)))
           \<and> points s' = points s
                @ map (Pair (start_at r)) (generate_pings (start_at r) (Tc s) vt)
                @ map (\<lambda>i. (waypoints r ! i, Tc s + vt + sum_list (take i ds)))
                      [0..<length (waypoints r)]
                @ map (Pair (end_at r)) (generate_pings (end_at r) (Tc s + vt + sum_list ds) vt')
           \<and> Tc s' = Tc s + vt + sum_list ds + vt'))
   \<and> (choose_route routes (weekday (Tc s)) (Lc s) = Inr r0
        \<and> (\<forall>l. on_route r0 l \<longrightarrow> fst (visit_time l) \<le> snd (visit_time l))
      \<longrightarrow> (\<exists>s1. trace_body routes s = Inr s1))
   \<and> (trace_iters n routes (case end_time of None \<Rightarrow> t + 86400 | Some e \<Rightarrow> e)
          \<lparr>Tc = t, Lc = l0, points = [], source = g\<rparr> = Some s
        \<and> Tc s < (case end_time of None \<Rightarrow> t + 86400 | Some e \<Rightarrow> e)
        \<and> trace_body routes s = Inr s'
        \<and> trace routes (PLoc l0) (PTime t) end_time g = Some (Inr pts)
      \<longrightarrow> (\<exists>ext. pts = points s' @ ext))"
proof (intro conjI impI)
  assume "trace_body routes s = Inr s'"
  then show "\<exists>r vt ds vt'. choose_route routes (weekday (Tc s)) (Lc s) = Inr r
           \<and> length ds = length (waypoints r)
           \<and> (\<forall>i < length (waypoints r). fst (visit_time (waypoints r ! i)) \<le> ds ! i
                                  \<and> ds ! i \<le> snd (visit_time (waypoints r ! i)))
           \<and> points s' = points s
                @ map (Pair (start_at r)) (generate_pings (start_at r) (Tc s) vt)
                @ map (\<lambda>i. (waypoints r ! i, Tc s + vt + sum_list (take i ds)))
                      [0..<length (waypoints r)]
                @ map (Pair (end_at r)) (generate_pings (end_at r) (Tc s + vt + sum_list ds) vt')
           \<and> Tc s' = Tc s + vt + sum_list ds + vt'"
    by (rule trace_body_events)
next
  assume "choose_route routes (weekday (Tc s)) (Lc s) = Inr r0
        \<and> (\<forall>l. on_route r0 l \<longrightarrow> fst (visit_time l) \<le> snd (visit_time l))"
  then show "\<exists>s1. trace_body routes s = Inr s1"
    using trace_body_total [of routes s r0] by blast
next
  define E where "E = (case end_time of None \<Rightarrow> t + 86400 | Some e \<Rightarrow> e)"
  assume a: "trace_iters n routes (case end_time of None \<Rightarrow> t + 86400 | Some e \<Rightarrow> e)
          \<lparr>Tc = t, Lc = l0, points = [], source = g\<rparr> = Some s
        \<and> Tc s < (case end_time of None \<Rightarrow> t + 86400 | Some e \<Rightarrow> e)
        \<and> trace_body routes s = Inr s'
        \<and> trace routes (PLoc l0) (PTime t) end_time g = Some (Inr pts)"
  then have it: "trace_iters n routes E \<lparr>Tc = t, Lc = l0, points = [], source = g\<rparr> = Some s"
    and lt: "Tc s < E" and body: "trace_body routes s = Inr s'"
    and run: "trace routes (PLoc l0) (PTime t) end_time g = Some (Inr pts)"
    by (simp_all add: E_def)
  have "trace routes (PLoc l0) (PTime t) end_time g
      = trace_loop routes E \<lparr>Tc = t, Lc = l0, points = [], source = g\<rparr>"
    by (simp add: trace_def E_def)
  also have "\<dots> = trace_loop routes E s"
    using it by (rule trace_loop_iters)
  also have "\<dots> = trace_loop routes E s'"
    using lt body by (subst trace_loop.simps) simp
  finally have "trace_loop routes E s' = Some (Inr pts)"
    using run by simp
  then show "\<exists>ext. pts = points s' @ ext"
    by (rule trace_loop_extends)
qed

theorem trace_waypoint_events_witness:
  "trace_body [route_AHWB] \<lparr>Tc = 0, Lc = loc_A, points = [], source = \<lambda>n. 0\<rparr>
     = Inr \<lparr>Tc = 600, Lc = loc_B, points = [(loc_H, 0), (loc_W, 600)], source = \<lambda>n. 0\<rparr>
   \<and> choose_route [route_AHWB] (weekday 0) loc_A = Inr route_AHWB
   \<and> waypoints route_AHWB = [loc_H, loc_W]
   \<and> visit_time loc_H = (600, 600)
   \<and> (\<exists>r vt ds vt'. choose_route [route_AHWB] (weekday 0) loc_A = Inr r
         \<and> length ds = length (waypoints r)
         \<and> [(loc_H, 0), (loc_W, 600)]
             = map (Pair (start_at r)) (generate_pings (start_at r) 0 vt)
               @ map (\<lambda>i. (waypoints r ! i, 0 + vt + sum_list (take i ds)))
                     [0..<length (waypoints r)]
               @ map (Pair (end_at r)) (generate_pings (end_at r) (0 + vt + sum_list ds) vt')
         \<and> (600::int) = 0 + vt + sum_list ds + vt')
   \<and> trace_iters 0 [route_AHWB] 600 \<lparr>Tc = 0, Lc = loc_A, points = [], source = \<lambda>n. 0\<rparr>
       = Some \<lparr>Tc = 0, Lc = loc_A, points = [], source = \<lambda>n. 0\<rparr>
   \<and> (0::int) < 600
   \<and> trace [route_AHWB] (PLoc loc_A) (PTime 0) (Some 600) (\<lambda>n. 0)
       = Some (Inr [(loc_H, 0), (loc_W, 600)])
   \<and> (\<exists>ext. [(loc_H, 0), (loc_W, 600)] = [(loc_H, 0), (loc_W, 600)] @ ext)"
proof -
  note inst = trace_waypoint_events [of "[route_AHWB]"
      "\<lparr>Tc = 0, Lc = loc_A, points = [], source = \<lambda>n. 0\<rparr>"
      "\<lparr>Tc = 600, Lc = loc_B, points = [(loc_H, 0), (loc_W, 600)], source = \<lambda>n. 0\<rparr>"
      route_AHWB 0 0 "Some 600" loc_A "\<lambda>n. 0" "[(loc_H, 0), (loc_W, 600)]"]
  have c: "choose_route [route_AHWB] (weekday 0) loc_A = Inr route_AHWB"
    by (simp add: choose_route_def route_AHWB_def weekday_def upto_rec1)
  have w: "waypoints route_AHWB = [loc_H, loc_W]"
    by (simp add: route_AHWB_def)
  have h: "visit_time loc_H = (600, 600)"
    by (simp add: loc_H_def)
  from inst ex_AHWB_body
  have ev: "\<exists>r vt ds vt'. choose_route [route_AHWB] (weekday 0) loc_A = Inr r
         \<and> length ds = length (waypoints r)
         \<and> [(loc_H, 0), (loc_W, 600)]
             = map (Pair (start_at r)) (generate_pings (start_at r) 0 vt)
               @ map (\<lambda>i. (waypoints r ! i, 0 + vt + sum_list (take i ds)))
                     [0..<length (waypoints r)]
               @ map (Pair (end_at r)) (generate_pings (end_at r) (0 + vt + sum_list ds) vt')
         \<and> (600::int) = 0 + vt + sum_list ds + vt'"
    by simp blast
  from inst ex_AHWB_body ex_AHWB_trace
  have ex: "\<exists>ext. [(loc_H, 0), (loc_W, 600)] = [(loc_H, 0), (loc_W, 600)] @ ext"
    by simp
  from ex_AHWB_body c w h ev ex ex_AHWB_trace show ?thesis
    by simp
qed

end
